theory Spec2Isabelle
  imports Main "HOL-Library.Word"
begin

unbundle bit_operations_syntax

section \<open>The entry writer of the ingest protocol (entryWriter.go)\<close>

subsection \<open>Bytes, errors and constants\<close>

type_synonym byte = "8 word"
type_synonym u32 = "32 word"
type_synonym entrySendID = "64 word"

text \<open>
  Go errors as values. The first four are created in entryWriter.go itself; the next two
  belong to the confirmation buffer; \<open>ErrExternal c\<close> stands for any error value that
  comes from outside the file (the connection, the bufio adapters, io.ReadFull,
  Entry.EncodeHeader), told apart by a code.
\<close>

datatype error =
    ErrMaxUnconfirmed
  | ErrInvalidDuration
  | ErrFailedToWriteBytes
  | ErrFailedToConfirm nat
  | errEntryNotFound
  | ErrBufferFull
  | ErrExternal nat

definition ACK_SIZE :: nat where "ACK_SIZE = 12"

text \<open>
  entry.ENTRY_HEADER_SIZE is declared in the entry package; the comment on
  READ_ENTRY_HEADER_SIZE fixes the sum at 46 bytes, hence 34.
\<close>

definition ENTRY_HEADER_SIZE :: nat where "ENTRY_HEADER_SIZE = 34"
definition READ_ENTRY_HEADER_SIZE :: nat where "READ_ENTRY_HEADER_SIZE = ENTRY_HEADER_SIZE + 12"
definition NEW_ENTRY_MAGIC :: u32 where "NEW_ENTRY_MAGIC = 0xC7C95ACB"
definition FORCE_ACK_MAGIC :: u32 where "FORCE_ACK_MAGIC = 0x1ADF7350"
definition CONFIRM_ENTRY_MAGIC :: u32 where "CONFIRM_ENTRY_MAGIC = 0xF6E0307E"
definition MIN_UNCONFIRMED_COUNT :: nat where "MIN_UNCONFIRMED_COUNT = 64"
definition MAX_UNCONFIRMED_COUNT :: nat where "MAX_UNCONFIRMED_COUNT = 1024 * 4"

text \<open>time.Duration counts nanoseconds; time.Second is \<open>10^9\<close>.\<close>

definition CLOSING_SERVICE_ACK_TIMEOUT :: int where "CLOSING_SERVICE_ACK_TIMEOUT = 1000000000"

subsection \<open>encoding/binary, little endian\<close>

definition PutUint32 :: "u32 \<Rightarrow> byte list" where
  "PutUint32 v = [ucast v, ucast (drop_bit 8 v), ucast (drop_bit 16 v), ucast (drop_bit 24 v)]"

definition PutUint64 :: "entrySendID \<Rightarrow> byte list" where
  "PutUint64 v = [ucast v, ucast (drop_bit 8 v), ucast (drop_bit 16 v), ucast (drop_bit 24 v),
                  ucast (drop_bit 32 v), ucast (drop_bit 40 v), ucast (drop_bit 48 v),
                  ucast (drop_bit 56 v)]"

text \<open>
  The readers take the slice from its start. Go panics on a slice shorter than the value;
  every call below reads inside the 46-byte scratch buffer, whose length no operation
  changes, so the last equation is never reached from a writer built by NewEntryWriter.
\<close>

fun Uint32 :: "byte list \<Rightarrow> u32" where
  "Uint32 (b0 # b1 # b2 # b3 # _) =
     ucast b0 OR push_bit 8 (ucast b1) OR push_bit 16 (ucast b2) OR push_bit 24 (ucast b3)"
| "Uint32 _ = 0"

fun Uint64 :: "byte list \<Rightarrow> entrySendID" where
  "Uint64 (b0 # b1 # b2 # b3 # b4 # b5 # b6 # b7 # _) =
     ucast b0 OR push_bit 8 (ucast b1) OR push_bit 16 (ucast b2) OR push_bit 24 (ucast b3)
     OR push_bit 32 (ucast b4) OR push_bit 40 (ucast b5) OR push_bit 48 (ucast b6)
     OR push_bit 56 (ucast b7)"
| "Uint64 _ = 0"

text \<open>
  Writing \<open>src\<close> into \<open>dst[off:]\<close>: a copy into a slice of the scratch buffer. An index
  beyond the buffer leaves it as it is, so the length never changes.
\<close>

fun blit :: "byte list \<Rightarrow> nat \<Rightarrow> byte list \<Rightarrow> byte list" where
  "blit dst off [] = dst"
| "blit dst off (b # bs) = blit (dst[off := b]) (Suc off) bs"

subsection \<open>The entry\<close>

text \<open>
  The entry package is outside the file. The writer uses two things of an entry:
  EncodeHeader, which fills ENTRY_HEADER_SIZE bytes or fails, and the Data slice.
\<close>

record Entry =
  EncodeHeader :: "error + byte list"
  Data :: "byte list"

subsection \<open>The confirmation buffer\<close>

text \<open>
  Modelled from the spec: the type entryConfBuffer and its methods (Add, Confirm, Count,
  Free, Full, Size, outstandingEntries) and newEntryConfirmationBuffer are in a file of
  the package that is not among the sources. Spec 3 and 4.2: an ordered container of
  (send-id, entry) records with a capacity.
\<close>

type_synonym entryConfirmation = "entrySendID \<times> Entry"

record entryConfBuffer =
  capacity :: nat
  recs :: "entryConfirmation list"

text \<open>Modelled from the spec: construction with the capacity asked for.\<close>

definition newEntryConfirmationBuffer :: "nat \<Rightarrow> error + entryConfBuffer" where
  "newEntryConfirmationBuffer n = Inr \<lparr>capacity = n, recs = []\<rparr>"

text \<open>Modelled from the spec: Count, Size, Free = Capacity - Count, Full iff Free = 0.\<close>

definition Count :: "entryConfBuffer \<Rightarrow> nat" where
  "Count b = length (recs b)"

definition Size :: "entryConfBuffer \<Rightarrow> nat" where
  "Size b = capacity b"

definition Free :: "entryConfBuffer \<Rightarrow> nat" where
  "Free b = capacity b - Count b"

definition Full :: "entryConfBuffer \<Rightarrow> bool" where
  "Full b = (Free b = 0)"

text \<open>Modelled from the spec: Add appends; fails if full.\<close>

definition Add :: "entryConfirmation \<Rightarrow> entryConfBuffer \<Rightarrow> error option \<times> entryConfBuffer" where
  "Add r b = (if Full b then (Some ErrBufferFull, b) else (None, b\<lparr>recs := recs b @ [r]\<rparr>))"

text \<open>
  Modelled from the spec: Confirm finds the record whose send-id equals the id and
  removes it along with every earlier record; it fails with EntryNotFound if the id is
  not present, the buffer unchanged. \<open>dropThrough\<close> is the search: what is left after
  the first record with the id, or None.
\<close>

fun dropThrough :: "entrySendID \<Rightarrow> entryConfirmation list \<Rightarrow> entryConfirmation list option" where
  "dropThrough i [] = None"
| "dropThrough i (r # rs) = (if fst r = i then Some rs else dropThrough i rs)"

definition Confirm :: "entrySendID \<Rightarrow> entryConfBuffer \<Rightarrow> error option \<times> entryConfBuffer" where
  "Confirm i b =
     (case dropThrough i (recs b) of
        None \<Rightarrow> (Some errEntryNotFound, b)
      | Some rs \<Rightarrow> (None, b\<lparr>recs := rs\<rparr>))"

text \<open>Modelled from the spec: Outstanding is the in-order snapshot of the remaining entries.\<close>

definition outstandingEntries_ecb :: "entryConfBuffer \<Rightarrow> Entry list" where
  "outstandingEntries_ecb b = map snd (recs b)"

subsection \<open>The connection and its two buffered adapters\<close>

text \<open>
  net.Conn, bufio.Writer and bufio.Reader are the Go library's. The writer owns all
  three and they share the connection, so they are one state \<open>'io\<close>, and what they do
  is a parameter of every function below: each method the file calls takes the state
  and returns its result and the new state. Write returns the count and the error;
  ReadFull of n bytes returns the bytes or the error; SetReadDeadline takes the duration
  added to time.Now(), None for the zero time that clears the deadline.
\<close>

record 'io transport =
  bIO_Write :: "'io \<Rightarrow> byte list \<Rightarrow> (nat \<times> error option) \<times> 'io"
  bIO_Flush :: "'io \<Rightarrow> error option \<times> 'io"
  bIO_Available :: "'io \<Rightarrow> nat"
  bIO_Buffered :: "'io \<Rightarrow> nat"
  bAckReader_ReadFull :: "'io \<Rightarrow> nat \<Rightarrow> (error + byte list) \<times> 'io"
  bAckReader_Buffered :: "'io \<Rightarrow> nat"
  conn_SetReadDeadline :: "'io \<Rightarrow> int option \<Rightarrow> error option \<times> 'io"
  conn_Close :: "'io \<Rightarrow> 'io"

subsection \<open>The writer\<close>

text \<open>
  The struct, without the mutex (calls are sequential here) and the unused errCount.
  The field id is \<open>id_ew\<close>.
\<close>

record 'io EntryWriter =
  io :: 'io
  ecb :: entryConfBuffer
  hot :: bool
  buff :: "byte list"
  id_ew :: entrySendID
  ackTimeout :: int

definition NewEntryWriter :: "'io \<Rightarrow> error + 'io EntryWriter" where
  "NewEntryWriter conn =
     (if MIN_UNCONFIRMED_COUNT \<ge> MAX_UNCONFIRMED_COUNT then Inl ErrMaxUnconfirmed
      else case newEntryConfirmationBuffer MAX_UNCONFIRMED_COUNT of
             Inl err \<Rightarrow> Inl err
           | Inr b \<Rightarrow> Inr \<lparr>io = conn, ecb = b, hot = True,
                          buff = replicate READ_ENTRY_HEADER_SIZE 0,
                          id_ew = 1, ackTimeout = CLOSING_SERVICE_ACK_TIMEOUT\<rparr>)"

definition OverrideAckTimeout :: "int \<Rightarrow> 'io EntryWriter \<Rightarrow> error option \<times> 'io EntryWriter" where
  "OverrideAckTimeout t ew =
     (let ew1 = ew\<lparr>ackTimeout := t\<rparr>
      in if t \<le> 0 then (Some ErrInvalidDuration, ew1) else (None, ew1))"

text \<open>
  writeAll: the loop over \<open>total\<close>, here \<open>tot\<close>. Every round that goes on has written at least one
  byte, so the loop ends.
\<close>

function writeAll_loop ::
  "'io transport \<Rightarrow> byte list \<Rightarrow> nat \<Rightarrow> 'io EntryWriter \<Rightarrow> error option \<times> 'io EntryWriter" where
  "writeAll_loop T b tot ew =
     (if tot < length b then
        (case bIO_Write T (io ew) (drop tot b) of
           ((n, err), io1) \<Rightarrow>
             if err \<noteq> None then (err, ew\<lparr>io := io1\<rparr>)
             else if n = 0 then (Some ErrFailedToWriteBytes, ew\<lparr>io := io1\<rparr>)
             else if tot + n = length b then (None, ew\<lparr>io := io1\<rparr>)
             else (case bIO_Flush T io1 of
                     (ferr, io2) \<Rightarrow>
                       if ferr \<noteq> None then (ferr, ew\<lparr>io := io2\<rparr>)
                       else writeAll_loop T b (tot + n) (ew\<lparr>io := io2\<rparr>)))
      else (None, ew))"
  by pat_completeness auto
termination
  by (relation "measure (\<lambda>(T, b, tot, ew). length b - tot)") auto

declare writeAll_loop.simps [simp del]

definition writeAll :: "'io transport \<Rightarrow> byte list \<Rightarrow> 'io EntryWriter \<Rightarrow> error option \<times> 'io EntryWriter" where
  "writeAll T b ew = writeAll_loop T b 0 ew"

definition throwAckSync :: "'io transport \<Rightarrow> 'io EntryWriter \<Rightarrow> error option \<times> 'io EntryWriter" where
  "throwAckSync T ew =
     (let tempBuff = PutUint32 FORCE_ACK_MAGIC
      in case writeAll T tempBuff ew of
           (Some err, ew1) \<Rightarrow> (Some err, ew1)
         | (None, ew1) \<Rightarrow>
             (case bIO_Flush T (io ew1) of
                (Some err, io2) \<Rightarrow> (Some err, ew1\<lparr>io := io2\<rparr>)
              | (None, io2) \<Rightarrow> (None, ew1\<lparr>io := io2\<rparr>)))"

text \<open>
  One round of the loop of readAcks up to the call of Confirm (lines 383 to 409): the
  12-byte read into the scratch buffer and the search for the magic. The result is the
  error that ends readAcks, or None for \<open>continue\<close>, or the id to confirm. A failed
  ReadFull leaves the scratch buffer as it was (the bytes of a partial read are read by
  nobody: readAcks returns at once).
\<close>

definition readAcks_frame ::
  "'io transport \<Rightarrow> 'io EntryWriter \<Rightarrow> (error + entrySendID option) \<times> 'io EntryWriter" where
  "readAcks_frame T ew =
     (case bAckReader_ReadFull T (io ew) ACK_SIZE of
        (Inl err, io1) \<Rightarrow> (Inl err, ew\<lparr>io := io1\<rparr>)
      | (Inr bs, io1) \<Rightarrow>
          let ew1 = ew\<lparr>io := io1, buff := blit (buff ew) 0 (take ACK_SIZE bs)\<rparr>;
              magic = Uint32 (buff ew1);
              i = Uint64 (drop 4 (buff ew1))
          in if magic \<noteq> CONFIRM_ENTRY_MAGIC then
               if Uint32 (drop 4 (buff ew1)) = CONFIRM_ENTRY_MAGIC then
                 (case bAckReader_ReadFull T (io ew1) (16 - 8) of
                    (Inl err, io2) \<Rightarrow> (Inl err, ew1\<lparr>io := io2\<rparr>)
                  | (Inr bs2, io2) \<Rightarrow>
                      let ew2 = ew1\<lparr>io := io2, buff := blit (buff ew1) 8 (take (16 - 8) bs2)\<rparr>
                      in (Inr (Some (Uint64 (drop 8 (buff ew2)))), ew2))
               else if Uint32 (drop 8 (buff ew1)) = CONFIRM_ENTRY_MAGIC then
                 (case bAckReader_ReadFull T (io ew1) (24 - 12) of
                    (Inl err, io2) \<Rightarrow> (Inl err, ew1\<lparr>io := io2\<rparr>)
                  | (Inr bs2, io2) \<Rightarrow>
                      let ew2 = ew1\<lparr>io := io2, buff := blit (buff ew1) 12 (take (24 - 12) bs2)\<rparr>
                      in (Inr (Some (Uint64 (drop 12 (buff ew2)))), ew2))
               else (Inr None, ew1)
             else (Inr (Some i), ew1))"

text \<open>
  readAcks. The loop need not end (a reader that never runs dry and never shows the
  magic keeps it going), so not returning is the value None.
\<close>

partial_function (option) readAcks ::
  "'io transport \<Rightarrow> bool \<Rightarrow> 'io EntryWriter \<Rightarrow> (error option \<times> 'io EntryWriter) option" where
  "readAcks T blocking ew =
     (if Count (ecb ew) > 0 \<and> (bAckReader_Buffered T (io ew) \<ge> ACK_SIZE \<or> blocking) then
        (case readAcks_frame T ew of
           (Inl err, ew1) \<Rightarrow> Some (Some err, ew1)
         | (Inr None, ew1) \<Rightarrow> readAcks T blocking ew1
         | (Inr (Some i), ew1) \<Rightarrow>
             (case Confirm i (ecb ew1) of
                (cerr, b) \<Rightarrow>
                  if cerr \<noteq> None \<and> cerr \<noteq> Some errEntryNotFound
                  then Some (cerr, ew1\<lparr>ecb := b\<rparr>)
                  else readAcks T False (ew1\<lparr>ecb := b\<rparr>)))
      else Some (None, ew))"

definition serviceAcks ::
  "'io transport \<Rightarrow> bool \<Rightarrow> 'io EntryWriter \<Rightarrow> (error option \<times> 'io EntryWriter) option" where
  "serviceAcks T blocking ew =
     (case (if blocking \<and> bIO_Buffered T (io ew) > 0
            then (case bIO_Flush T (io ew) of (ferr, io1) \<Rightarrow> (ferr, ew\<lparr>io := io1\<rparr>))
            else (None, ew)) of
        (Some err, ew1) \<Rightarrow> Some (Some err, ew1)
      | (None, ew1) \<Rightarrow>
          (case readAcks T blocking ew1 of
             None \<Rightarrow> None
           | Some (Some err, ew2) \<Rightarrow> Some (Some err, ew2)
           | Some (None, ew2) \<Rightarrow>
               if Full (ecb ew2) then
                 (case throwAckSync T ew2 of
                    (Some err, ew3) \<Rightarrow> Some (Some err, ew3)
                  | (None, ew3) \<Rightarrow> readAcks T True ew3)
               else Some (None, ew2)))"

text \<open>
  forceAckNoLock: the loop that serves acks under a read deadline, then the check after
  it. The results of the two calls that clear the deadline are dropped, as in the source.
\<close>

partial_function (option) forceAckNoLock_loop ::
  "'io transport \<Rightarrow> 'io EntryWriter \<Rightarrow> (error option \<times> 'io EntryWriter) option" where
  "forceAckNoLock_loop T ew =
     (if Count (ecb ew) > 0 then
        (case conn_SetReadDeadline T (io ew) (Some (ackTimeout ew)) of
           (Some err, io1) \<Rightarrow> Some (Some err, ew\<lparr>io := io1\<rparr>)
         | (None, io1) \<Rightarrow>
             (case serviceAcks T True (ew\<lparr>io := io1\<rparr>) of
                None \<Rightarrow> None
              | Some (Some err, ew2) \<Rightarrow>
                  Some (Some err, ew2\<lparr>io := snd (conn_SetReadDeadline T (io ew2) None)\<rparr>)
              | Some (None, ew2) \<Rightarrow>
                  forceAckNoLock_loop T (ew2\<lparr>io := snd (conn_SetReadDeadline T (io ew2) None)\<rparr>)))
      else Some (None, ew))"

definition forceAckNoLock ::
  "'io transport \<Rightarrow> 'io EntryWriter \<Rightarrow> (error option \<times> 'io EntryWriter) option" where
  "forceAckNoLock T ew =
     (case throwAckSync T ew of
        (Some err, ew1) \<Rightarrow> Some (Some err, ew1)
      | (None, ew1) \<Rightarrow>
          (case forceAckNoLock_loop T ew1 of
             None \<Rightarrow> None
           | Some (Some err, ew2) \<Rightarrow> Some (Some err, ew2)
           | Some (None, ew2) \<Rightarrow>
               if Count (ecb ew2) > 0 then Some (Some (ErrFailedToConfirm (Count (ecb ew2))), ew2)
               else Some (None, ew2)))"

definition ForceAck ::
  "'io transport \<Rightarrow> 'io EntryWriter \<Rightarrow> (error option \<times> 'io EntryWriter) option" where
  "ForceAck T ew = forceAckNoLock T ew"

definition outstandingEntries :: "'io EntryWriter \<Rightarrow> Entry list" where
  "outstandingEntries ew = outstandingEntries_ecb (ecb ew)"

definition Close ::
  "'io transport \<Rightarrow> 'io EntryWriter \<Rightarrow> (error option \<times> 'io EntryWriter) option" where
  "Close T ew =
     (case forceAckNoLock T ew of
        None \<Rightarrow> None
      | Some (Some err, ew1) \<Rightarrow> Some (Some err, ew1\<lparr>io := conn_Close T (io ew1), hot := False\<rparr>)
      | Some (None, ew1) \<Rightarrow>
          (case conn_SetReadDeadline T (io ew1) (Some (ackTimeout ew1)) of
             (Some err, io2) \<Rightarrow> Some (Some err, ew1\<lparr>io := conn_Close T io2, hot := False\<rparr>)
           | (None, io2) \<Rightarrow>
               (case readAcks T True (ew1\<lparr>io := io2\<rparr>) of
                  None \<Rightarrow> None
                | Some (err, ew3) \<Rightarrow>
                    Some (err, ew3\<lparr>io := conn_Close T (io ew3), hot := False\<rparr>))))"

text \<open>
  writeEntry, in two parts. The first is lines 263 to 284: the forced ack service when
  the confirmation buffer is full, the framing of magic, header and send-id in the
  scratch buffer, and the write of that header. On a failing EncodeHeader the scratch
  buffer is left with the magic alone.
\<close>

definition writeEntry_header ::
  "'io transport \<Rightarrow> Entry \<Rightarrow> 'io EntryWriter \<Rightarrow> (error option \<times> 'io EntryWriter) option" where
  "writeEntry_header T ent ew =
     (case (if Full (ecb ew) then
              (case bIO_Flush T (io ew) of
                 (Some err, io1) \<Rightarrow> Some (Some err, ew\<lparr>io := io1\<rparr>)
               | (None, io1) \<Rightarrow> serviceAcks T True (ew\<lparr>io := io1\<rparr>))
            else Some (None, ew)) of
        None \<Rightarrow> None
      | Some (Some err, ew1) \<Rightarrow> Some (Some err, ew1)
      | Some (None, ew1) \<Rightarrow>
          let ew2 = ew1\<lparr>buff := blit (buff ew1) 0 (PutUint32 NEW_ENTRY_MAGIC)\<rparr>
          in (case EncodeHeader ent of
                Inl err \<Rightarrow> Some (Some err, ew2)
              | Inr hdr \<Rightarrow>
                  let ew3 = ew2\<lparr>buff := blit (buff ew2) 4 (take ENTRY_HEADER_SIZE hdr)\<rparr>;
                      ew4 = ew3\<lparr>buff := blit (buff ew3) (ENTRY_HEADER_SIZE + 4)
                                               (PutUint64 (id_ew ew3))\<rparr>
                  in Some (writeAll T (buff ew4) ew4)))"

text \<open>
  The second part is lines 285 to 306: the flush before a payload larger than the free
  space of the buffered writer, the payload, the flush the caller asked for, and the
  record added under the current send-id. It returns the flag and the error.
\<close>

definition writeEntry ::
  "'io transport \<Rightarrow> Entry \<Rightarrow> bool \<Rightarrow> 'io EntryWriter \<Rightarrow>
     ((bool \<times> error option) \<times> 'io EntryWriter) option" where
  "writeEntry T ent flush ew =
     (case writeEntry_header T ent ew of
        None \<Rightarrow> None
      | Some (Some err, ew5) \<Rightarrow> Some ((False, Some err), ew5)
      | Some (None, ew5) \<Rightarrow>
          let pre = (length (Data ent) > bIO_Available T (io ew5))
          in (case (if pre then (case bIO_Flush T (io ew5) of
                                   (ferr, io6) \<Rightarrow> (ferr, ew5\<lparr>io := io6\<rparr>))
                    else (None, ew5)) of
                (Some err, ew6) \<Rightarrow> Some ((False, Some err), ew6)
              | (None, ew6) \<Rightarrow>
                  (case writeAll T (Data ent) ew6 of
                     (Some err, ew7) \<Rightarrow> Some ((False, Some err), ew7)
                   | (None, ew7) \<Rightarrow>
                       (case (if flush then (case bIO_Flush T (io ew7) of
                                               (ferr, io8) \<Rightarrow> (ferr, ew7\<lparr>io := io8\<rparr>))
                              else (None, ew7)) of
                          (Some err, ew8) \<Rightarrow> Some ((False, Some err), ew8)
                        | (None, ew8) \<Rightarrow>
                            (case Add (id_ew ew8, ent) (ecb ew8) of
                               (Some err, b) \<Rightarrow> Some ((False, Some err), ew8\<lparr>ecb := b\<rparr>)
                             | (None, b) \<Rightarrow>
                                 Some ((if flush then flush else pre, None),
                                       ew8\<lparr>ecb := b, id_ew := id_ew ew8 + 1\<rparr>))))))"

definition writeFlush ::
  "'io transport \<Rightarrow> Entry \<Rightarrow> bool \<Rightarrow> 'io EntryWriter \<Rightarrow> (error option \<times> 'io EntryWriter) option" where
  "writeFlush T ent flush ew =
     (let blocking = (if Full (ecb ew) then True else False)
      in case serviceAcks T blocking ew of
           None \<Rightarrow> None
         | Some (Some err, ew1) \<Rightarrow> Some (Some err, ew1)
         | Some (None, ew1) \<Rightarrow>
             (case writeEntry T ent flush ew1 of
                None \<Rightarrow> None
              | Some ((_, err), ew2) \<Rightarrow> Some (err, ew2)))"

definition Write :: "'io transport \<Rightarrow> Entry \<Rightarrow> 'io EntryWriter \<Rightarrow> (error option \<times> 'io EntryWriter) option" where
  "Write T ent ew = writeFlush T ent False ew"

definition WriteSync :: "'io transport \<Rightarrow> Entry \<Rightarrow> 'io EntryWriter \<Rightarrow> (error option \<times> 'io EntryWriter) option" where
  "WriteSync T ent ew = writeFlush T ent True ew"

definition OpenSlots :: "'io EntryWriter \<Rightarrow> nat" where
  "OpenSlots ew = Free (ecb ew)"

definition WriteWithHint ::
  "'io transport \<Rightarrow> Entry \<Rightarrow> 'io EntryWriter \<Rightarrow> ((bool \<times> error option) \<times> 'io EntryWriter) option" where
  "WriteWithHint T ent ew =
     (let blocking = (if Full (ecb ew) then True else False)
      in case serviceAcks T blocking ew of
           None \<Rightarrow> None
         | Some (Some err, ew1) \<Rightarrow> Some ((False, Some err), ew1)
         | Some (None, ew1) \<Rightarrow> writeEntry T ent True ew1)"

fun WriteBatch ::
  "'io transport \<Rightarrow> Entry list \<Rightarrow> 'io EntryWriter \<Rightarrow> (error option \<times> 'io EntryWriter) option" where
  "WriteBatch T [] ew = Some (None, ew)"
| "WriteBatch T (ent # ents) ew =
     (case writeEntry T ent False ew of
        None \<Rightarrow> None
      | Some ((_, Some err), ew1) \<Rightarrow> Some (Some err, ew1)
      | Some ((_, None), ew1) \<Rightarrow> WriteBatch T ents ew1)"

definition Ack :: "'io transport \<Rightarrow> 'io EntryWriter \<Rightarrow> (error option \<times> 'io EntryWriter) option" where
  "Ack T ew = (if Count (ecb ew) = 0 then Some (None, ew) else serviceAcks T True ew)"

definition OptimalBatchWriteSize :: "'io EntryWriter \<Rightarrow> nat" where
  "OptimalBatchWriteSize ew = Size (ecb ew)"

subsection \<open>Observing the calls on the transport\<close>

text \<open>
  To speak of the calls a function makes (was there a flush, how many bytes were asked
  of the reader, which deadline was set), any transport is wrapped into one that also
  keeps the list of calls made so far. The wrapped transport answers as the one inside.
\<close>

datatype event =
    EvWrite "byte list" nat
  | EvFlush
  | EvReadFull nat
  | EvSetReadDeadline "int option"
  | EvClose

definition traced :: "'io transport \<Rightarrow> ('io \<times> event list) transport" where
  "traced T =
     \<lparr>bIO_Write = (\<lambda>(s, tr) bs. case bIO_Write T s bs of
                       (r, s') \<Rightarrow> (r, (s', tr @ [EvWrite bs (fst r)]))),
      bIO_Flush = (\<lambda>(s, tr). case bIO_Flush T s of (r, s') \<Rightarrow> (r, (s', tr @ [EvFlush]))),
      bIO_Available = (\<lambda>(s, tr). bIO_Available T s),
      bIO_Buffered = (\<lambda>(s, tr). bIO_Buffered T s),
      bAckReader_ReadFull = (\<lambda>(s, tr) n. case bAckReader_ReadFull T s n of
                               (r, s') \<Rightarrow> (r, (s', tr @ [EvReadFull n]))),
      bAckReader_Buffered = (\<lambda>(s, tr). bAckReader_Buffered T s),
      conn_SetReadDeadline = (\<lambda>(s, tr) d. case conn_SetReadDeadline T s d of
                                (r, s') \<Rightarrow> (r, (s', tr @ [EvSetReadDeadline d]))),
      conn_Close = (\<lambda>(s, tr). (conn_Close T s, tr @ [EvClose]))\<rparr>"

definition trace :: "('io \<times> event list) EntryWriter \<Rightarrow> event list" where
  "trace ew = snd (io ew)"

text \<open>What a trace says: the bytes a Write call took, the deadlines set, the flushes.\<close>

fun accepted :: "event \<Rightarrow> byte list" where
  "accepted (EvWrite bs n) = take n bs"
| "accepted _ = []"

fun deadlines :: "event list \<Rightarrow> int option list" where
  "deadlines [] = []"
| "deadlines (EvSetReadDeadline d # evs) = d # deadlines evs"
| "deadlines (_ # evs) = deadlines evs"

fun flushes :: "event list \<Rightarrow> nat" where
  "flushes [] = 0"
| "flushes (EvFlush # evs) = Suc (flushes evs)"
| "flushes (_ # evs) = flushes evs"

subsection \<open>Relations between the writer before and after a call\<close>

text \<open>
  The functions of the file are built from few steps: a Write or a Flush of the buffered
  writer, a ReadFull of the ack reader, a copy into the scratch buffer, a Confirm. A
  relation that holds across each step, and is reflexive and transitive, holds across
  every call of those functions that returns.
\<close>

definition wr_closed :: "'io transport \<Rightarrow> ('io EntryWriter \<Rightarrow> 'io EntryWriter \<Rightarrow> bool) \<Rightarrow> bool" where
  "wr_closed T R \<longleftrightarrow>
     (\<forall>w. R w w) \<and> (\<forall>a b c. R a b \<longrightarrow> R b c \<longrightarrow> R a c) \<and>
     (\<forall>w bs. R w (w\<lparr>io := snd (bIO_Write T (io w) bs)\<rparr>)) \<and>
     (\<forall>w. R w (w\<lparr>io := snd (bIO_Flush T (io w))\<rparr>))"

definition rd_closed :: "'io transport \<Rightarrow> ('io EntryWriter \<Rightarrow> 'io EntryWriter \<Rightarrow> bool) \<Rightarrow> bool" where
  "rd_closed T R \<longleftrightarrow>
     (\<forall>w. R w w) \<and> (\<forall>a b c. R a b \<longrightarrow> R b c \<longrightarrow> R a c) \<and>
     (\<forall>w n. R w (w\<lparr>io := snd (bAckReader_ReadFull T (io w) n)\<rparr>)) \<and>
     (\<forall>w off bs. R w (w\<lparr>buff := blit (buff w) off bs\<rparr>)) \<and>
     (\<forall>w i. R w (w\<lparr>ecb := snd (Confirm i (ecb w))\<rparr>))"

text \<open>Only the transport has changed.\<close>

definition only_io :: "'io EntryWriter \<Rightarrow> 'io EntryWriter \<Rightarrow> bool" where
  "only_io a b \<longleftrightarrow>
     ecb b = ecb a \<and> hot b = hot a \<and> buff b = buff a \<and> id_ew b = id_ew a \<and>
     ackTimeout b = ackTimeout a"

text \<open>
  The send-id, the ack timeout, the hot flag, the length of the scratch buffer and the
  capacity are as before, and the records are the old ones without some of the oldest.
\<close>

definition keeps :: "'io EntryWriter \<Rightarrow> 'io EntryWriter \<Rightarrow> bool" where
  "keeps a b \<longleftrightarrow>
     id_ew b = id_ew a \<and> ackTimeout b = ackTimeout a \<and> hot b = hot a \<and>
     length (buff b) = length (buff a) \<and> capacity (ecb b) = capacity (ecb a) \<and>
     (\<exists>k. recs (ecb b) = drop k (recs (ecb a)))"

text \<open>The trace has grown, and no deadline was set.\<close>

definition extends :: "('io \<times> event list) EntryWriter \<Rightarrow> ('io \<times> event list) EntryWriter \<Rightarrow> bool" where
  "extends a b \<longleftrightarrow> (\<exists>evs. trace b = trace a @ evs \<and> deadlines evs = [])"

subsection \<open>A scripted peer\<close>

text \<open>
  A concrete transport for the examples: the bytes the peer has sent and the writer has
  not read yet, a script of the counts the buffered writer accepts on its next Write
  calls (none left: all the bytes, as bufio does), its free space, and the number of
  bytes it holds. A ReadFull that finds fewer bytes than asked fails as a read that
  runs into the deadline does, with what was there consumed.
\<close>

record peer =
  pending :: "byte list"
  accepts :: "nat list"
  avail :: nat
  held :: nat

definition ErrTimeout :: error where "ErrTimeout = ErrExternal 1"

definition peerT :: "peer transport" where
  "peerT =
     \<lparr>bIO_Write = (\<lambda>s bs. case accepts s of
                      [] \<Rightarrow> ((length bs, None), s)
                    | k # ks \<Rightarrow> ((min k (length bs), None), s\<lparr>accepts := ks\<rparr>)),
      bIO_Flush = (\<lambda>s. (None, s\<lparr>held := 0\<rparr>)),
      bIO_Available = avail,
      bIO_Buffered = held,
      bAckReader_ReadFull = (\<lambda>s n. if n \<le> length (pending s)
                                    then (Inr (take n (pending s)), s\<lparr>pending := drop n (pending s)\<rparr>)
                                    else (Inl ErrTimeout, s\<lparr>pending := []\<rparr>)),
      bAckReader_Buffered = (\<lambda>s. length (pending s)),
      conn_SetReadDeadline = (\<lambda>s d. (None, s)),
      conn_Close = (\<lambda>s. s)\<rparr>"

text \<open>A Confirm frame as the peer sends it: the magic, then the send-id.\<close>

definition confirmFrame :: "entrySendID \<Rightarrow> byte list" where
  "confirmFrame i = PutUint32 CONFIRM_ENTRY_MAGIC @ PutUint64 i"

subsection \<open>Runs of Write\<close>

text \<open>
  The send-id an entry was written under is the one in its frame header, which the
  scratch buffer still holds when the call returns. \<open>WriteSeq\<close> calls Write on the
  entries in turn, whether the call before failed or not, and collects the send-ids of
  the entries whose Write succeeded.
\<close>

definition sentID :: "'io EntryWriter \<Rightarrow> entrySendID" where
  "sentID ew = Uint64 (drop (ENTRY_HEADER_SIZE + 4) (buff ew))"


subsection \<open>The hot flag\<close>

text \<open>The same writer with the hot flag set to \<open>h\<close>.\<close>

definition with_hot :: "bool \<Rightarrow> 'io EntryWriter \<Rightarrow> 'io EntryWriter" where
  "with_hot h ew = ew\<lparr>hot := h\<rparr>"

subsection \<open>Examples\<close>

text \<open>
  The writer NewEntryWriter builds on a connection, written out; an entry with the
  one-byte payload "a"; an entry whose header does not encode; a peer that has sent
  nothing, with 4 MiB free in the buffered writer.
\<close>

definition fresh :: "'io \<Rightarrow> 'io EntryWriter" where
  "fresh conn =
     \<lparr>io = conn, ecb = \<lparr>capacity = 4096, recs = []\<rparr>, hot = True,
      buff = replicate 46 0, id_ew = 1, ackTimeout = 1000000000\<rparr>"

definition entryA :: Entry where
  "entryA = \<lparr>EncodeHeader = Inr (replicate 34 0), Data = [0x61]\<rparr>"

definition entryBad :: Entry where
  "entryBad = \<lparr>EncodeHeader = Inl (ErrExternal 7), Data = [0x62]\<rparr>"

definition idle :: peer where
  "idle = \<lparr>pending = [], accepts = [], avail = 4194304, held = 0\<rparr>"

text \<open>
  The writer after one Write of \<open>entryA\<close> on a fresh writer: the entry is outstanding
  under send-id 1, the scratch buffer holds its frame header.
\<close>

definition oneOut :: "'io \<Rightarrow> 'io EntryWriter" where
  "oneOut conn =
     \<lparr>io = conn, ecb = \<lparr>capacity = 4096, recs = [(1, entryA)]\<rparr>, hot = True,
      buff = PutUint32 NEW_ENTRY_MAGIC @ replicate 34 0 @ PutUint64 1,
      id_ew = 2, ackTimeout = 1000000000\<rparr>"

text \<open>
  The writer after 4096 entries \<open>entryA\<close> written and none confirmed: the confirmation
  buffer is full. \<open>manyRecs a n\<close> are the records of \<open>n\<close> entries, with the send-ids
  that follow \<open>a\<close>.
\<close>

definition manyRecs :: "nat \<Rightarrow> nat \<Rightarrow> entryConfirmation list" where
  "manyRecs a n = map (\<lambda>k. (of_nat (a + Suc k), entryA)) [0..<n]"

definition fullOut :: "'io \<Rightarrow> 'io EntryWriter" where
  "fullOut conn =
     \<lparr>io = conn, ecb = \<lparr>capacity = 4096, recs = manyRecs 0 4096\<rparr>, hot = True,
      buff = PutUint32 NEW_ENTRY_MAGIC @ replicate 34 0 @ PutUint64 4096,
      id_ew = 4097, ackTimeout = 1000000000\<rparr>"

text \<open>
  The writer after \<open>n\<close> entries \<open>entryA\<close> written and none confirmed, for the proof
  that a run of the code reaches the full writer above.
\<close>

definition outN :: "nat \<Rightarrow> 'io \<Rightarrow> 'io EntryWriter" where
  "outN n conn =
     \<lparr>io = conn, ecb = \<lparr>capacity = 4096, recs = manyRecs 0 n\<rparr>, hot = True,
      buff = (if n = 0 then replicate 46 0
              else PutUint32 NEW_ENTRY_MAGIC @ replicate 34 0 @ PutUint64 (of_nat n)),
      id_ew = of_nat (Suc n), ackTimeout = 1000000000\<rparr>"

text \<open>
  The writer NewEntryWriter builds on the idle peer, after Close: Close has sent the
  force-ack frame, flushed, set the read deadline and closed the connection.
\<close>

definition shut :: "(peer \<times> event list) EntryWriter" where
  "shut = (fresh (idle, [EvWrite (PutUint32 FORCE_ACK_MAGIC) 4, EvFlush,
                          EvSetReadDeadline (Some 1000000000), EvClose]))\<lparr>hot := False\<rparr>"

subsection \<open>A buffered writer whose free space shrinks\<close>

text \<open>
  A second transport for the examples, closer to bufio.Writer of WRITE_BUFFER_SIZE
  bytes: a Write takes all its bytes and the free space shrinks by them; a Write that
  does not fit goes out to the connection together with what the buffer held and leaves
  the buffer empty, as a Flush does. The acks the peer has sent are in \<open>inbox\<close>; a
  ReadFull that finds fewer bytes than asked fails as a read that runs into the deadline.
\<close>

definition WRITE_BUFFER_SIZE :: nat where "WRITE_BUFFER_SIZE = 4 * 1024 * 1024"

record wire =
  room :: nat
  inbox :: "byte list"

definition wireT :: "wire transport" where
  "wireT =
     \<lparr>bIO_Write = (\<lambda>s bs. ((length bs, None),
                      s\<lparr>room := (if length bs \<le> room s then room s - length bs
                                  else WRITE_BUFFER_SIZE)\<rparr>)),
      bIO_Flush = (\<lambda>s. (None, s\<lparr>room := WRITE_BUFFER_SIZE\<rparr>)),
      bIO_Available = room,
      bIO_Buffered = (\<lambda>s. WRITE_BUFFER_SIZE - room s),
      bAckReader_ReadFull = (\<lambda>s n. if n \<le> length (inbox s)
                                    then (Inr (take n (inbox s)), s\<lparr>inbox := drop n (inbox s)\<rparr>)
                                    else (Inl ErrTimeout, s\<lparr>inbox := []\<rparr>)),
      bAckReader_Buffered = (\<lambda>s. length (inbox s)),
      conn_SetReadDeadline = (\<lambda>s d. (None, s)),
      conn_Close = (\<lambda>s. s)\<rparr>"

text \<open>The buffer empty and nothing sent by the peer; an entry with a payload one byte
  longer than the buffer.\<close>

definition quiet :: wire where
  "quiet = \<lparr>room = 4194304, inbox = []\<rparr>"

definition entryBig :: Entry where
  "entryBig = \<lparr>EncodeHeader = Inr (replicate 34 1), Data = replicate 4194305 2\<rparr>"

subsection \<open>What a call of writeEntry inside a batch has done\<close>

text \<open>
  The buffered writer takes all the bytes of a Write or reports an error, as
  bufio.Writer does.
\<close>

definition takes_all :: "'io transport \<Rightarrow> bool" where
  "takes_all T \<longleftrightarrow>
     (\<forall>s bs. snd (fst (bIO_Write T s bs)) = None \<longrightarrow> fst (fst (bIO_Write T s bs)) = length bs)"

text \<open>
  \<open>entry_written T i e w w'\<close>: the call of writeEntry without sync flush on entry \<open>e\<close>
  took the writer from \<open>w\<close> to \<open>w'\<close> without error, framed the entry under send-id
  \<open>i\<close> and added it. The scratch buffer holds the frame header (the magic, the encoded
  header, the send-id); the bytes the buffered writer took during the call end with the
  frame header and the payload, and are exactly these when the confirmation buffer was
  not full; the record \<open>(i, e)\<close> is the newest one. The flag returned says whether the
  payload was longer than the free space after the header; when the confirmation buffer
  was not full and no Write is partial, the flush before such a payload is the only
  flush of the call.
\<close>

definition entry_written ::
  "'io transport \<Rightarrow> entrySendID \<Rightarrow> Entry \<Rightarrow>
     ('io \<times> event list) EntryWriter \<Rightarrow> ('io \<times> event list) EntryWriter \<Rightarrow> bool" where
  "entry_written T i e w w' \<longleftrightarrow>
     (\<exists>fl ew5 hdr evs p.
        writeEntry (traced T) e False w = Some ((fl, None), w') \<and>
        writeEntry_header (traced T) e w = Some (None, ew5) \<and>
        fl = (bIO_Available T (fst (io ew5)) < length (Data e)) \<and>
        id_ew w = i \<and> id_ew w' = i + 1 \<and>
        EncodeHeader e = Inr hdr \<and>
        Uint32 (buff w') = NEW_ENTRY_MAGIC \<and> sentID w' = i \<and>
        (length hdr = ENTRY_HEADER_SIZE \<longrightarrow>
           buff w' = PutUint32 NEW_ENTRY_MAGIC @ hdr @ PutUint64 i) \<and>
        trace w' = trace w @ evs \<and>
        concat (map accepted evs) = p @ buff w' @ Data e \<and>
        (\<exists>k. recs (ecb w') = drop k (recs (ecb w)) @ [(i, e)]) \<and>
        (\<not> Full (ecb w) \<longrightarrow>
           p = [] \<and> recs (ecb w') = recs (ecb w) @ [(i, e)] \<and>
           (takes_all T \<longrightarrow> flushes evs = (if fl then 1 else 0))))"

text \<open>
  \<open>entry_failed T err e w w'\<close>: the call of writeEntry without sync flush on entry
  \<open>e\<close> took the writer from \<open>w\<close> to \<open>w'\<close> and returned \<open>err\<close>. The send-id is not
  spent and no record is added: the records are the old ones, all of them when the
  confirmation buffer was not full. In that case, with no partial Write, the call made
  at most the one flush before the payload.
\<close>

definition entry_failed ::
  "'io transport \<Rightarrow> error \<Rightarrow> Entry \<Rightarrow>
     ('io \<times> event list) EntryWriter \<Rightarrow> ('io \<times> event list) EntryWriter \<Rightarrow> bool" where
  "entry_failed T err e w w' \<longleftrightarrow>
     (\<exists>evs.
        writeEntry (traced T) e False w = Some ((False, Some err), w') \<and>
        id_ew w' = id_ew w \<and>
        trace w' = trace w @ evs \<and>
        (\<exists>k. recs (ecb w') = drop k (recs (ecb w))) \<and>
        (\<not> Full (ecb w) \<longrightarrow>
           recs (ecb w') = recs (ecb w) \<and> (takes_all T \<longrightarrow> flushes evs \<le> 1)))"

section \<open>Lemmas\<close>

subsection \<open>The scratch buffer and the traced transport\<close>

lemma length_blit [simp]: "length (blit dst off src) = length dst"
  by (induction src arbitrary: dst off) auto

lemma traced_Write [simp]:
  "bIO_Write (traced T) s bs =
     (case bIO_Write T (fst s) bs of (r, s') \<Rightarrow> (r, (s', snd s @ [EvWrite bs (fst r)])))"
  by (cases s) (simp add: traced_def)

lemma traced_Flush [simp]:
  "bIO_Flush (traced T) s = (case bIO_Flush T (fst s) of (r, s') \<Rightarrow> (r, (s', snd s @ [EvFlush])))"
  by (cases s) (simp add: traced_def)

lemma traced_Available [simp]: "bIO_Available (traced T) s = bIO_Available T (fst s)"
  by (cases s) (simp add: traced_def)

lemma traced_Buffered [simp]: "bIO_Buffered (traced T) s = bIO_Buffered T (fst s)"
  by (cases s) (simp add: traced_def)

lemma traced_ReadFull [simp]:
  "bAckReader_ReadFull (traced T) s n =
     (case bAckReader_ReadFull T (fst s) n of (r, s') \<Rightarrow> (r, (s', snd s @ [EvReadFull n])))"
  by (cases s) (simp add: traced_def)

lemma traced_RBuffered [simp]: "bAckReader_Buffered (traced T) s = bAckReader_Buffered T (fst s)"
  by (cases s) (simp add: traced_def)

lemma traced_SetReadDeadline [simp]:
  "conn_SetReadDeadline (traced T) s d =
     (case conn_SetReadDeadline T (fst s) d of (r, s') \<Rightarrow> (r, (s', snd s @ [EvSetReadDeadline d])))"
  by (cases s) (simp add: traced_def)

lemma traced_Close [simp]:
  "conn_Close (traced T) s = (conn_Close T (fst s), snd s @ [EvClose])"
  by (cases s) (simp add: traced_def)

subsection \<open>Relations closed under the steps\<close>

lemma wr_refl: "wr_closed T R \<Longrightarrow> R w w"
  by (simp add: wr_closed_def)

lemma wr_trans: "wr_closed T R \<Longrightarrow> R a b \<Longrightarrow> R b c \<Longrightarrow> R a c"
  unfolding wr_closed_def by blast

lemma wr_Write: "wr_closed T R \<Longrightarrow> bIO_Write T (io w) bs = (r, s) \<Longrightarrow> R w (w\<lparr>io := s\<rparr>)"
  unfolding wr_closed_def by (metis snd_conv)

lemma wr_Flush: "wr_closed T R \<Longrightarrow> bIO_Flush T (io w) = (r, s) \<Longrightarrow> R w (w\<lparr>io := s\<rparr>)"
  unfolding wr_closed_def by (metis snd_conv)

lemma rd_refl: "rd_closed T R \<Longrightarrow> R w w"
  by (simp add: rd_closed_def)

lemma rd_trans: "rd_closed T R \<Longrightarrow> R a b \<Longrightarrow> R b c \<Longrightarrow> R a c"
  unfolding rd_closed_def by blast

lemma rd_ReadFull:
  "rd_closed T R \<Longrightarrow> bAckReader_ReadFull T (io w) n = (r, s) \<Longrightarrow> R w (w\<lparr>io := s\<rparr>)"
  unfolding rd_closed_def by (metis snd_conv)

lemma rd_blit: "rd_closed T R \<Longrightarrow> R w (w\<lparr>buff := blit (buff w) off bs\<rparr>)"
  by (simp add: rd_closed_def)

lemma rd_Confirm: "rd_closed T R \<Longrightarrow> Confirm i (ecb w) = (r, b) \<Longrightarrow> R w (w\<lparr>ecb := b\<rparr>)"
  unfolding rd_closed_def by (metis snd_conv)

lemma writeAll_loop_wr:
  assumes R: "wr_closed T R"
  shows "R ew (snd (writeAll_loop T b tot ew))"
proof (induction "length b - tot" arbitrary: tot ew rule: less_induct)
  case less
  show ?case
  proof (cases "tot < length b")
    case False
    then show ?thesis by (subst writeAll_loop.simps) (simp add: wr_refl[OF R])
  next
    case True
    obtain n err io1 where w: "bIO_Write T (io ew) (drop tot b) = ((n, err), io1)"
      by (metis prod.exhaust)
    obtain ferr io2 where f: "bIO_Flush T io1 = (ferr, io2)" by (metis prod.exhaust)
    have r1: "R ew (ew\<lparr>io := io1\<rparr>)" by (rule wr_Write[OF R w])
    have "R (ew\<lparr>io := io1\<rparr>) (ew\<lparr>io := io1\<rparr>\<lparr>io := io2\<rparr>)"
      by (rule wr_Flush[OF R]) (simp add: f)
    with r1 have r2: "R ew (ew\<lparr>io := io2\<rparr>)" using wr_trans[OF R] by fastforce
    show ?thesis
    proof (cases "err = None \<and> n \<noteq> 0 \<and> tot + n \<noteq> length b \<and> ferr = None")
      case c: True
      then have "length b - (tot + n) < length b - tot" using True by linarith
      from less[OF this, of "ew\<lparr>io := io2\<rparr>"] r2
      have "R ew (snd (writeAll_loop T b (tot + n) (ew\<lparr>io := io2\<rparr>)))"
        using wr_trans[OF R] by blast
      moreover have "writeAll_loop T b tot ew = writeAll_loop T b (tot + n) (ew\<lparr>io := io2\<rparr>)"
        using True w f c by (subst writeAll_loop.simps) simp
      ultimately show ?thesis by simp
    next
      case False
      then show ?thesis using True w f r1 r2
        by (subst writeAll_loop.simps) auto
    qed
  qed
qed

lemma writeAll_wr: "wr_closed T R \<Longrightarrow> writeAll T b ew = (e, ew') \<Longrightarrow> R ew ew'"
  using writeAll_loop_wr[of T R ew b 0] by (simp add: writeAll_def)

lemma throwAckSync_wr:
  assumes R: "wr_closed T R" and t: "throwAckSync T ew = (e, ew')"
  shows "R ew ew'"
proof -
  obtain e1 ew1 where w: "writeAll T (PutUint32 FORCE_ACK_MAGIC) ew = (e1, ew1)"
    by (metis prod.exhaust)
  obtain e2 io2 where f: "bIO_Flush T (io ew1) = (e2, io2)" by (metis prod.exhaust)
  have r1: "R ew ew1" by (rule writeAll_wr[OF R w])
  have r2: "R ew1 (ew1\<lparr>io := io2\<rparr>)" by (rule wr_Flush[OF R f])
  from r1 r2 have r3: "R ew (ew1\<lparr>io := io2\<rparr>)" by (rule wr_trans[OF R])
  show ?thesis using t w f r1 r3
    by (auto simp: throwAckSync_def split: option.splits)
qed

lemma readAcks_frame_rd:
  assumes R: "rd_closed T R" and t: "readAcks_frame T ew = (r, ew')"
  shows "R ew ew'"
proof -
  obtain r1 io1 where a: "bAckReader_ReadFull T (io ew) ACK_SIZE = (r1, io1)"
    by (metis prod.exhaust)
  have s1: "R ew (ew\<lparr>io := io1\<rparr>)" by (rule rd_ReadFull[OF R a])
  show ?thesis
  proof (cases r1)
    case (Inl err)
    with t a s1 show ?thesis by (simp add: readAcks_frame_def)
  next
    case (Inr bs)
    define b1 where "b1 = blit (buff ew) 0 (take ACK_SIZE bs)"
    have "R (ew\<lparr>io := io1\<rparr>) (ew\<lparr>io := io1, buff := b1\<rparr>)"
      using rd_blit[OF R, of "ew\<lparr>io := io1\<rparr>" 0 "take ACK_SIZE bs"] by (simp add: b1_def)
    with s1 have s2: "R ew (ew\<lparr>io := io1, buff := b1\<rparr>)" by (rule rd_trans[OF R])
    have rd: "R ew (ew\<lparr>io := io1, buff := b1\<rparr>\<lparr>io := io2\<rparr>)"
      if "bAckReader_ReadFull T io1 n = (r2, io2)" for n r2 io2
    proof -
      have "R (ew\<lparr>io := io1, buff := b1\<rparr>) (ew\<lparr>io := io1, buff := b1\<rparr>\<lparr>io := io2\<rparr>)"
        by (rule rd_ReadFull[OF R, where n = n and r = r2]) (simp add: that)
      with s2 show ?thesis by (rule rd_trans[OF R])
    qed
    have rb: "R ew (ew\<lparr>io := io1, buff := b1\<rparr>\<lparr>io := io2\<rparr>\<lparr>buff := blit b1 off bs2\<rparr>)"
      if "bAckReader_ReadFull T io1 n = (r2, io2)" for n r2 io2 off bs2
    proof -
      have "R (ew\<lparr>io := io1, buff := b1\<rparr>\<lparr>io := io2\<rparr>)
              (ew\<lparr>io := io1, buff := b1\<rparr>\<lparr>io := io2\<rparr>\<lparr>buff := blit (buff (ew\<lparr>io := io1, buff := b1\<rparr>\<lparr>io := io2\<rparr>)) off bs2\<rparr>)"
        by (rule rd_blit[OF R])
      then have "R (ew\<lparr>io := io1, buff := b1\<rparr>\<lparr>io := io2\<rparr>)
              (ew\<lparr>io := io1, buff := b1\<rparr>\<lparr>io := io2\<rparr>\<lparr>buff := blit b1 off bs2\<rparr>)"
        by simp
      with rd[OF that] show ?thesis by (rule rd_trans[OF R])
    qed
    obtain r8 io8 where r8: "bAckReader_ReadFull T io1 8 = (r8, io8)" by (metis prod.exhaust)
    obtain r12 io12 where r12: "bAckReader_ReadFull T io1 12 = (r12, io12)" by (metis prod.exhaust)
    note f = s2 rd[OF r8] rd[OF r12] rb[OF r8] rb[OF r12]
    from t a Inr r8 r12 show ?thesis
      unfolding readAcks_frame_def Let_def b1_def[symmetric]
      by (simp add: b1_def[symmetric] split: if_splits sum.splits) (use f in auto)
  qed
qed

lemma readAcks_rd:
  assumes R: "rd_closed T R" and h: "readAcks T b ew = Some (e, ew')"
  shows "R ew ew'"
proof -
  have "rd_closed T R \<longrightarrow> R ew (snd (e, ew'))"
  proof (rule readAcks.raw_induct[where P = "\<lambda>T b ew y. rd_closed T R \<longrightarrow> R ew (snd y)", OF _ h],
         intro impI)
    fix f :: "'a transport \<Rightarrow> bool \<Rightarrow> 'a EntryWriter \<Rightarrow> (error option \<times> 'a EntryWriter) option"
    fix T b ew y
    assume IH: "\<And>T b ew y. f T b ew = Some y \<Longrightarrow> rd_closed T R \<longrightarrow> R ew (snd y)"
      and body: "(if Count (ecb ew) > 0 \<and> (bAckReader_Buffered T (io ew) \<ge> ACK_SIZE \<or> b) then
        (case readAcks_frame T ew of
           (Inl err, ew1) \<Rightarrow> Some (Some err, ew1)
         | (Inr None, ew1) \<Rightarrow> f T b ew1
         | (Inr (Some i), ew1) \<Rightarrow>
             (case Confirm i (ecb ew1) of
                (cerr, b) \<Rightarrow>
                  if cerr \<noteq> None \<and> cerr \<noteq> Some errEntryNotFound
                  then Some (cerr, ew1\<lparr>ecb := b\<rparr>)
                  else f T False (ew1\<lparr>ecb := b\<rparr>)))
      else Some (None, ew)) = Some y"
      and R: "rd_closed T R"
    show "R ew (snd y)"
    proof (cases "Count (ecb ew) > 0 \<and> (bAckReader_Buffered T (io ew) \<ge> ACK_SIZE \<or> b)")
      case False
      with body show ?thesis by (auto simp: rd_refl[OF R])
    next
      case True
      obtain r ew1 where fr: "readAcks_frame T ew = (r, ew1)" by (metis prod.exhaust)
      have r1: "R ew ew1" by (rule readAcks_frame_rd[OF R fr])
      show ?thesis
      proof (cases r)
        case (Inl err)
        with body True fr r1 show ?thesis by auto
      next
        case (Inr o1)
        show ?thesis
        proof (cases o1)
          case None
          with body True fr Inr have "f T b ew1 = Some y" by simp
          from IH[OF this] R have "R ew1 (snd y)" by blast
          with r1 show ?thesis by (rule rd_trans[OF R])
        next
          case (Some i)
          obtain cerr bb where c: "Confirm i (ecb ew1) = (cerr, bb)" by (metis prod.exhaust)
          have "R ew1 (ew1\<lparr>ecb := bb\<rparr>)" by (rule rd_Confirm[OF R c])
          with r1 have r2: "R ew (ew1\<lparr>ecb := bb\<rparr>)" by (rule rd_trans[OF R])
          show ?thesis
          proof (cases "cerr \<noteq> None \<and> cerr \<noteq> Some errEntryNotFound")
            case t: True
            with body True fr Inr Some c r2 show ?thesis by auto
          next
            case f: False
            with body True fr Inr Some c
            have "f T False (ew1\<lparr>ecb := bb\<rparr>) = Some y" by auto
            from IH[OF this] R have "R (ew1\<lparr>ecb := bb\<rparr>) (snd y)" by blast
            with r2 show ?thesis by (rule rd_trans[OF R])
          qed
        qed
      qed
    qed
  qed
  with R show ?thesis by simp
qed

lemma serviceAcks_closed:
  assumes W: "wr_closed T R" and R: "rd_closed T R" and s: "serviceAcks T b ew = Some (e, ew')"
  shows "R ew ew'"
proof -
  define ew1 where "ew1 = (if b \<and> bIO_Buffered T (io ew) > 0
                            then ew\<lparr>io := snd (bIO_Flush T (io ew))\<rparr> else ew)"
  have r1: "R ew ew1"
    using wr_Flush[OF W, of ew] rd_refl[OF R]
    by (cases "bIO_Flush T (io ew)") (auto simp: ew1_def)
  show ?thesis
  proof (cases "b \<and> bIO_Buffered T (io ew) > 0 \<and> fst (bIO_Flush T (io ew)) \<noteq> None")
    case True
    with s r1 show ?thesis
      by (auto simp: serviceAcks_def ew1_def split: prod.splits option.splits if_splits)
  next
    case False
    then have s1: "(case readAcks T b ew1 of
             None \<Rightarrow> None
           | Some (Some err, ew2) \<Rightarrow> Some (Some err, ew2)
           | Some (None, ew2) \<Rightarrow>
               if Full (ecb ew2) then
                 (case throwAckSync T ew2 of
                    (Some err, ew3) \<Rightarrow> Some (Some err, ew3)
                  | (None, ew3) \<Rightarrow> readAcks T True ew3)
               else Some (None, ew2)) = Some (e, ew')"
      using s by (auto simp: serviceAcks_def ew1_def split: prod.splits option.splits if_splits)
    then obtain e2 ew2 where ra: "readAcks T b ew1 = Some (e2, ew2)"
      by (cases "readAcks T b ew1") auto
    have r2: "R ew ew2" using r1 readAcks_rd[OF R ra] by (rule rd_trans[OF R])
    obtain e3 ew3 where th: "throwAckSync T ew2 = (e3, ew3)" by (metis prod.exhaust)
    have r3: "R ew ew3" using r2 throwAckSync_wr[OF W th] by (rule rd_trans[OF R])
    show ?thesis
    proof (cases "e2 = None \<and> Full (ecb ew2) \<and> e3 = None")
      case True
      with s1 ra th have "readAcks T True ew3 = Some (e, ew')" by simp
      from r3 readAcks_rd[OF R this] show ?thesis by (rule rd_trans[OF R])
    next
      case False
      with s1 ra th r2 r3 show ?thesis by (auto split: option.splits if_splits)
    qed
  qed
qed

subsection \<open>Encoding and decoding\<close>

lemma Uint32_PutUint32 [simp]: "Uint32 (PutUint32 v @ rest) = v"
proof -
  have "ucast (ucast v :: byte) OR push_bit 8 (ucast (ucast (drop_bit 8 v) :: byte))
        OR push_bit 16 (ucast (ucast (drop_bit 16 v) :: byte))
        OR push_bit 24 (ucast (ucast (drop_bit 24 v) :: byte)) = (v :: u32)"
  proof (rule bit_word_eqI)
    fix n assume n: "n < LENGTH(32)"
    consider "n < 8" | "8 \<le> n \<and> n < 16" | "16 \<le> n \<and> n < 24" | "24 \<le> n \<and> n < 32"
      using n by fastforce
    then show "bit (ucast (ucast v :: byte) OR push_bit 8 (ucast (ucast (drop_bit 8 v) :: byte))
        OR push_bit 16 (ucast (ucast (drop_bit 16 v) :: byte))
        OR push_bit 24 (ucast (ucast (drop_bit 24 v) :: byte)) :: u32) n = bit v n"
      by cases (auto simp: bit_simps)
  qed
  then show ?thesis by (simp add: PutUint32_def)
qed

lemma Uint64_PutUint64 [simp]: "Uint64 (PutUint64 v @ rest) = v"
proof -
  have "ucast (ucast v :: byte) OR push_bit 8 (ucast (ucast (drop_bit 8 v) :: byte))
        OR push_bit 16 (ucast (ucast (drop_bit 16 v) :: byte))
        OR push_bit 24 (ucast (ucast (drop_bit 24 v) :: byte))
        OR push_bit 32 (ucast (ucast (drop_bit 32 v) :: byte))
        OR push_bit 40 (ucast (ucast (drop_bit 40 v) :: byte))
        OR push_bit 48 (ucast (ucast (drop_bit 48 v) :: byte))
        OR push_bit 56 (ucast (ucast (drop_bit 56 v) :: byte)) = (v :: entrySendID)"
  proof (rule bit_word_eqI)
    fix n assume n: "n < LENGTH(64)"
    consider "n < 8" | "8 \<le> n \<and> n < 16" | "16 \<le> n \<and> n < 24" | "24 \<le> n \<and> n < 32"
      | "32 \<le> n \<and> n < 40" | "40 \<le> n \<and> n < 48" | "48 \<le> n \<and> n < 56" | "56 \<le> n \<and> n < 64"
      using n by fastforce
    then show "bit (ucast (ucast v :: byte) OR push_bit 8 (ucast (ucast (drop_bit 8 v) :: byte))
        OR push_bit 16 (ucast (ucast (drop_bit 16 v) :: byte))
        OR push_bit 24 (ucast (ucast (drop_bit 24 v) :: byte))
        OR push_bit 32 (ucast (ucast (drop_bit 32 v) :: byte))
        OR push_bit 40 (ucast (ucast (drop_bit 40 v) :: byte))
        OR push_bit 48 (ucast (ucast (drop_bit 48 v) :: byte))
        OR push_bit 56 (ucast (ucast (drop_bit 56 v) :: byte)) :: entrySendID) n = bit v n"
      by cases (auto simp: bit_simps)
  qed
  then show ?thesis by (simp add: PutUint64_def)
qed


lemma blit_eq:
  "off + length src \<le> length dst \<Longrightarrow>
     blit dst off src = take off dst @ src @ drop (off + length src) dst"
proof (induction src arbitrary: dst off)
  case Nil
  then show ?case by simp
next
  case (Cons b bs)
  then have l: "off < length dst" by simp
  have "blit (dst[off := b]) (Suc off) bs =
          take (Suc off) (dst[off := b]) @ bs @ drop (Suc off + length bs) (dst[off := b])"
    using Cons.prems by (intro Cons.IH) simp
  also have "take (Suc off) (dst[off := b]) = take off dst @ [b]"
    using l by (simp add: take_Suc_conv_app_nth)
  finally show ?case by simp
qed

lemma deadlines_append [simp]: "deadlines (xs @ ys) = deadlines xs @ deadlines ys"
  by (induction xs rule: deadlines.induct) auto

lemma flushes_append [simp]: "flushes (xs @ ys) = flushes xs + flushes ys"
  by (induction xs rule: flushes.induct) auto

subsection \<open>The three relations are closed\<close>

lemma only_io_wr: "wr_closed T only_io"
  by (simp add: wr_closed_def only_io_def)

lemma dropThrough_drop: "dropThrough i rs = Some rs' \<Longrightarrow> \<exists>k. rs' = drop k rs"
proof (induction rs)
  case Nil
  then show ?case by simp
next
  case (Cons r rs)
  show ?case
  proof (cases "fst r = i")
    case True
    with Cons.prems have "rs' = drop 1 (r # rs)" by simp
    then show ?thesis by blast
  next
    case False
    with Cons obtain k where "rs' = drop k rs" by auto
    then have "rs' = drop (Suc k) (r # rs)" by simp
    then show ?thesis by blast
  qed
qed

lemma Confirm_drop: "\<exists>k. recs (snd (Confirm i b)) = drop k (recs b)"
proof (cases "dropThrough i (recs b)")
  case None
  then have "recs (snd (Confirm i b)) = drop 0 (recs b)" by (simp add: Confirm_def)
  then show ?thesis by blast
next
  case (Some rs)
  then show ?thesis using dropThrough_drop[OF Some] by (simp add: Confirm_def)
qed

lemma Confirm_capacity [simp]: "capacity (snd (Confirm i b)) = capacity b"
  by (simp add: Confirm_def split: option.splits)

lemma keeps_refl: "keeps w w"
  unfolding keeps_def by (metis drop_0)

lemma keeps_trans: "keeps a b \<Longrightarrow> keeps b c \<Longrightarrow> keeps a c"
  unfolding keeps_def by (metis drop_drop)

lemma only_io_keeps: "only_io a b \<Longrightarrow> keeps a b"
  unfolding only_io_def keeps_def by (simp, metis drop_0)

lemma keeps_io: "keeps w (w\<lparr>io := s\<rparr>)"
  by (rule only_io_keeps) (simp add: only_io_def)

lemma keeps_wr: "wr_closed T keeps"
  unfolding wr_closed_def
  by (intro conjI allI impI keeps_refl keeps_io) (erule keeps_trans, assumption)

lemma keeps_blit: "keeps w (w\<lparr>buff := blit (buff w) off bs\<rparr>)"
  unfolding keeps_def by (simp, metis drop_0)

lemma keeps_Confirm: "keeps w (w\<lparr>ecb := snd (Confirm i (ecb w))\<rparr>)"
  using Confirm_drop[of i "ecb w"] by (simp add: keeps_def)

lemma keeps_rd: "rd_closed T keeps"
  unfolding rd_closed_def
  by (intro conjI allI impI keeps_refl keeps_io keeps_blit keeps_Confirm)
     (erule keeps_trans, assumption)

lemma extends_refl: "extends w w"
  unfolding extends_def by (intro exI[of _ "[]"]) simp

lemma extends_trans: "extends a b \<Longrightarrow> extends b c \<Longrightarrow> extends a c"
  unfolding extends_def by (metis append.assoc deadlines_append append_Nil2)

lemma extends_Write: "extends w (w\<lparr>io := snd (bIO_Write (traced T) (io w) bs)\<rparr>)"
  unfolding extends_def trace_def by (simp split: prod.splits)

lemma extends_Flush: "extends w (w\<lparr>io := snd (bIO_Flush (traced T) (io w))\<rparr>)"
  unfolding extends_def trace_def by (simp split: prod.splits)

lemma extends_ReadFull: "extends w (w\<lparr>io := snd (bAckReader_ReadFull (traced T) (io w) n)\<rparr>)"
  unfolding extends_def trace_def by (simp split: prod.splits)

lemma extends_buff: "extends w (w\<lparr>buff := x\<rparr>)"
  unfolding extends_def trace_def by simp

lemma extends_ecb: "extends w (w\<lparr>ecb := x\<rparr>)"
  unfolding extends_def trace_def by simp

lemma extends_wr: "wr_closed (traced T) extends"
  unfolding wr_closed_def
  by (intro conjI allI impI extends_refl extends_Write extends_Flush)
     (erule extends_trans, assumption)

lemma extends_rd: "rd_closed (traced T) extends"
  unfolding rd_closed_def
  by (intro conjI allI impI extends_refl extends_ReadFull extends_buff extends_ecb)
     (erule extends_trans, assumption)

subsection \<open>The scripted peer\<close>

lemma peerT_simps [simp]:
  "bIO_Write peerT s bs = (case accepts s of
                      [] \<Rightarrow> ((length bs, None), s)
                    | k # ks \<Rightarrow> ((min k (length bs), None), s\<lparr>accepts := ks\<rparr>))"
  "bIO_Flush peerT s = (None, s\<lparr>held := 0\<rparr>)"
  "bIO_Available peerT s = avail s"
  "bIO_Buffered peerT s = held s"
  "bAckReader_ReadFull peerT s n = (if n \<le> length (pending s)
                                    then (Inr (take n (pending s)), s\<lparr>pending := drop n (pending s)\<rparr>)
                                    else (Inl ErrTimeout, s\<lparr>pending := []\<rparr>))"
  "bAckReader_Buffered peerT s = length (pending s)"
  "conn_SetReadDeadline peerT s d = (None, s)"
  "conn_Close peerT s = s"
  by (simp_all add: peerT_def)

lemma NewEntryWriter_fresh: "NewEntryWriter conn = Inr (fresh conn)"
  by (simp add: NewEntryWriter_def fresh_def newEntryConfirmationBuffer_def
      MIN_UNCONFIRMED_COUNT_def MAX_UNCONFIRMED_COUNT_def READ_ENTRY_HEADER_SIZE_def
      ENTRY_HEADER_SIZE_def CLOSING_SERVICE_ACK_TIMEOUT_def)

lemma writeAll_peer:
  "accepts (io ew) = [] \<Longrightarrow> writeAll peerT b ew = (None, ew)"
  unfolding writeAll_def by (subst writeAll_loop.simps) simp

lemma writeAll_traced_peer:
  "accepts (fst (io ew)) = [] \<Longrightarrow>
     writeAll (traced peerT) b ew =
       (None, if b = [] then ew else ew\<lparr>io := (fst (io ew), snd (io ew) @ [EvWrite b (length b)])\<rparr>)"
  unfolding writeAll_def by (subst writeAll_loop.simps) simp

lemma readAcks_empty: "Count (ecb ew) = 0 \<Longrightarrow> readAcks T b ew = Some (None, ew)"
  by (subst readAcks.simps) simp

lemma readAcks_dry:
  "\<not> b \<Longrightarrow> bAckReader_Buffered T (io ew) < ACK_SIZE \<Longrightarrow> readAcks T b ew = Some (None, ew)"
  by (subst readAcks.simps) simp

subsection \<open>WriteWithHint\<close>

lemma WriteWithHint_fresh:
  "\<exists>b w. WriteWithHint peerT entryA (fresh idle) = Some ((b, None), w)"
  by (simp add: WriteWithHint_def serviceAcks_def writeEntry_def writeEntry_header_def
      readAcks_empty writeAll_peer fresh_def idle_def entryA_def Full_def Free_def Count_def
      Add_def Let_def, blast)

text \<open>
  Claim C10. Every call of WriteWithHint that succeeds returns true: it always asks
  writeEntry for the sync flush, and on that path writeEntry sets the flag whatever
  else happened, so the hint tells nothing apart.
\<close>

theorem WriteWithHint_true:
  "WriteWithHint T ent ew = Some ((b, None), ew') \<Longrightarrow> b = True"
  by (auto simp: WriteWithHint_def writeEntry_def Let_def
           split: option.splits prod.splits if_splits sum.splits)

theorem WriteWithHint_true_witness:
  "map_option fst (WriteWithHint peerT entryA (fresh idle)) = Some (True, None)"
proof -
  obtain b w where h: "WriteWithHint peerT entryA (fresh idle) = Some ((b, None), w)"
    using WriteWithHint_fresh by blast
  from WriteWithHint_true[OF h] h show ?thesis by simp
qed

subsection \<open>Confirm\<close>

lemma dropThrough_None: "dropThrough i rs = None \<longleftrightarrow> i \<notin> fst ` set rs"
  by (induction rs) auto

lemma dropThrough_sorted:
  "sorted_wrt (<) (map fst rs) \<Longrightarrow> dropThrough i rs = Some rs' \<Longrightarrow>
     rs' = filter (\<lambda>r. i < fst r) rs"
proof (induction rs)
  case Nil
  then show ?case by simp
next
  case (Cons r rs)
  show ?case
  proof (cases "fst r = i")
    case True
    with Cons.prems have "rs' = rs" and "\<forall>x\<in>set rs. i < fst x" by auto
    then show ?thesis using True by (simp add: filter_id_conv)
  next
    case False
    with Cons.prems have d: "dropThrough i rs = Some rs'" by simp
    then have "i \<in> fst ` set rs" using dropThrough_None[of i rs] by auto
    with Cons.prems(1) have "fst r < i" by auto
    then have "\<not> i < fst r" by simp
    with Cons.IH[OF _ d] Cons.prems(1) show ?thesis by simp
  qed
qed

text \<open>
  Claim C2. On a confirmation buffer whose records are in strictly increasing send-id
  order: if a record with the id is present, Confirm succeeds and what is left are
  exactly the records with a greater send-id, so the record with the id and every record
  with a smaller one are gone and no others; if none is present, Confirm fails with
  EntryNotFound and the buffer is unchanged.
\<close>

theorem Confirm_sweeps:
  assumes "sorted_wrt (<) (map fst (recs b))"
  shows "(i \<in> fst ` set (recs b) \<longrightarrow>
            Confirm i b = (None, b\<lparr>recs := filter (\<lambda>r. i < fst r) (recs b)\<rparr>)) \<and>
         (i \<notin> fst ` set (recs b) \<longrightarrow> Confirm i b = (Some errEntryNotFound, b))"
proof (cases "dropThrough i (recs b)")
  case None
  then show ?thesis using dropThrough_None[of i "recs b"] by (simp add: Confirm_def)
next
  case (Some rs)
  from dropThrough_sorted[OF assms Some] Some dropThrough_None[of i "recs b"]
  show ?thesis by (simp add: Confirm_def)
qed

theorem Confirm_sweeps_witness:
  "Confirm 3 \<lparr>capacity = 4096,
              recs = [(1, entryA), (2, entryA), (3, entryA), (4, entryA), (5, entryA)]\<rparr>
     = (None, \<lparr>capacity = 4096, recs = [(4, entryA), (5, entryA)]\<rparr>) \<and>
   Confirm 9 \<lparr>capacity = 4096,
              recs = [(1, entryA), (2, entryA), (3, entryA), (4, entryA), (5, entryA)]\<rparr>
     = (Some errEntryNotFound,
        \<lparr>capacity = 4096,
         recs = [(1, entryA), (2, entryA), (3, entryA), (4, entryA), (5, entryA)]\<rparr>)"
  using Confirm_sweeps[of "\<lparr>capacity = 4096,
      recs = [(1, entryA), (2, entryA), (3, entryA), (4, entryA), (5, entryA)]\<rparr>" 3]
    Confirm_sweeps[of "\<lparr>capacity = 4096,
      recs = [(1, entryA), (2, entryA), (3, entryA), (4, entryA), (5, entryA)]\<rparr>" 9]
  by simp

subsection \<open>writeAll\<close>

lemma writeAll_loop_written:
  "writeAll_loop (traced T) b tot ew = (None, ew') \<Longrightarrow>
     \<exists>evs. trace ew' = trace ew @ evs \<and> concat (map accepted evs) = drop tot b"
proof (induction "length b - tot" arbitrary: tot ew rule: less_induct)
  case less
  show ?case
  proof (cases "tot < length b")
    case False
    with less.prems show ?thesis by (subst (asm) writeAll_loop.simps) simp
  next
    case True
    obtain n err io1 where w: "bIO_Write T (fst (io ew)) (drop tot b) = ((n, err), io1)"
      by (metis prod.exhaust)
    obtain ferr io2 where f: "bIO_Flush T io1 = (ferr, io2)" by (metis prod.exhaust)
    let ?tr1 = "snd (io ew) @ [EvWrite (drop tot b) n]"
    from less.prems True w have e: "err = None" and n: "n \<noteq> 0"
      by (subst (asm) writeAll_loop.simps, auto split: if_splits)+
    show ?thesis
    proof (cases "tot + n = length b")
      case t: True
      with less.prems True w e n have "ew' = ew\<lparr>io := (io1, ?tr1)\<rparr>"
        by (subst (asm) writeAll_loop.simps) simp
      moreover from t have "take n (drop tot b) = drop tot b" by simp
      ultimately show ?thesis by (simp add: trace_def)
    next
      case t: False
      with less.prems True w e n f have fe: "ferr = None"
        and r: "writeAll_loop (traced T) b (tot + n) (ew\<lparr>io := (io2, ?tr1 @ [EvFlush])\<rparr>) = (None, ew')"
        by (subst (asm) writeAll_loop.simps, auto split: if_splits)+
      have "length b - (tot + n) < length b - tot" using True n by linarith
      from less.hyps[OF this r]
      obtain evs where evs: "trace ew' = ?tr1 @ [EvFlush] @ evs"
        "concat (map accepted evs) = drop (tot + n) b" by (auto simp: trace_def)
      have "take n (drop tot b) @ drop (tot + n) b = drop tot b"
        by (metis add.commute append_take_drop_id drop_drop)
      with evs show ?thesis
        by (intro exI[of _ "EvWrite (drop tot b) n # EvFlush # evs"]) (simp add: trace_def)
    qed
  qed
qed

text \<open>
  Claim C8. In writeAll a Write that takes no byte and reports no error is fatal, with
  the error "Failed to write bytes". A Write that takes some but not all of the
  remaining bytes is no error: the buffered writer is flushed and, unless the flush
  fails, the loop goes on with the bytes that remain. When writeAll returns without
  error, the bytes the Write calls took are, in order, the input.
\<close>

theorem writeAll_short_and_partial:
  "(tot < length b \<and> bIO_Write T (io ew) (drop tot b) = ((0, None), io1) \<longrightarrow>
      writeAll_loop T b tot ew = (Some ErrFailedToWriteBytes, ew\<lparr>io := io1\<rparr>)) \<and>
   (tot < length b \<and> bIO_Write T (io ew) (drop tot b) = ((n, None), io1) \<and>
    0 < n \<and> tot + n < length b \<longrightarrow>
      writeAll_loop T b tot ew =
        (case bIO_Flush T io1 of
           (Some ferr, io2) \<Rightarrow> (Some ferr, ew\<lparr>io := io2\<rparr>)
         | (None, io2) \<Rightarrow> writeAll_loop T b (tot + n) (ew\<lparr>io := io2\<rparr>))) \<and>
   (writeAll (traced T) b tw = (None, tw') \<longrightarrow>
      (\<exists>evs. trace tw' = trace tw @ evs \<and> concat (map accepted evs) = b))"
proof (intro conjI impI)
  assume "tot < length b \<and> bIO_Write T (io ew) (drop tot b) = ((0, None), io1)"
  then show "writeAll_loop T b tot ew = (Some ErrFailedToWriteBytes, ew\<lparr>io := io1\<rparr>)"
    by (subst writeAll_loop.simps) simp
next
  assume "tot < length b \<and> bIO_Write T (io ew) (drop tot b) = ((n, None), io1) \<and>
    0 < n \<and> tot + n < length b"
  then show "writeAll_loop T b tot ew =
        (case bIO_Flush T io1 of
           (Some ferr, io2) \<Rightarrow> (Some ferr, ew\<lparr>io := io2\<rparr>)
         | (None, io2) \<Rightarrow> writeAll_loop T b (tot + n) (ew\<lparr>io := io2\<rparr>))"
    by (subst writeAll_loop.simps) (auto split: prod.splits option.splits)
next
  assume "writeAll (traced T) b tw = (None, tw')"
  then show "\<exists>evs. trace tw' = trace tw @ evs \<and> concat (map accepted evs) = b"
    using writeAll_loop_written[of T b 0 tw tw'] by (simp add: writeAll_def)
qed


theorem writeAll_short_and_partial_witness:
  "(0 < length [1, 2, 3 :: byte] \<and>
    bIO_Write peerT (io (fresh (idle\<lparr>accepts := [0]\<rparr>))) (drop 0 [1, 2, 3])
      = ((0, None), idle) \<and>
    writeAll_loop peerT [1, 2, 3] 0 (fresh (idle\<lparr>accepts := [0]\<rparr>))
      = (Some ErrFailedToWriteBytes, fresh idle)) \<and>
   (bIO_Write peerT (io (fresh (idle\<lparr>accepts := [2]\<rparr>))) (drop 0 [1, 2, 3])
      = ((2, None), idle) \<and>
    writeAll_loop peerT [1, 2, 3] 0 (fresh (idle\<lparr>accepts := [2]\<rparr>))
      = writeAll_loop peerT [1, 2, 3] 2 (fresh idle)) \<and>
   (writeAll (traced peerT) [1, 2, 3] (fresh (idle\<lparr>accepts := [2]\<rparr>, []))
      = (None, fresh (idle, [EvWrite [1, 2, 3] 2, EvFlush, EvWrite [3] 1])) \<and>
    (\<exists>evs. trace (fresh (idle, [EvWrite [1, 2, 3] 2, EvFlush, EvWrite [3] 1]))
             = trace (fresh (idle\<lparr>accepts := [2]\<rparr>, [])) @ evs \<and>
           concat (map accepted evs) = [1, 2, 3]))"
proof -
  have h1: "0 < length [1, 2, 3 :: byte] \<and>
    bIO_Write peerT (io (fresh (idle\<lparr>accepts := [0]\<rparr>))) (drop 0 [1, 2, 3]) = ((0, None), idle)"
    by (simp add: fresh_def idle_def)
  have h2: "0 < length [1, 2, 3 :: byte] \<and>
    bIO_Write peerT (io (fresh (idle\<lparr>accepts := [2]\<rparr>))) (drop 0 [1, 2, 3]) = ((2, None), idle) \<and>
    0 < (2::nat) \<and> 0 + 2 < length [1, 2, 3 :: byte]"
    by (simp add: fresh_def idle_def)
  have h3: "writeAll (traced peerT) [1, 2, 3] (fresh (idle\<lparr>accepts := [2]\<rparr>, []))
      = (None, fresh (idle, [EvWrite [1, 2, 3] 2, EvFlush, EvWrite [3] 1]))"
    by (simp add: writeAll_def writeAll_loop.simps fresh_def idle_def)
  have f: "fresh (idle\<lparr>accepts := [2]\<rparr>)\<lparr>io := idle\<rparr> = fresh idle"
    "fresh (idle\<lparr>accepts := [0]\<rparr>)\<lparr>io := idle\<rparr> = fresh idle"
    "bIO_Flush peerT idle = (None, idle)" "idle\<lparr>held := 0\<rparr> = idle"
    "Suc (Suc 0) = 2"
    by (simp_all add: fresh_def idle_def)
  from writeAll_short_and_partial[where tot = 0 and b = "[1, 2, 3]" and T = peerT
          and ew = "fresh (idle\<lparr>accepts := [0]\<rparr>)" and ?io1.0 = idle] h1
  have c1: "writeAll_loop peerT [1, 2, 3] 0 (fresh (idle\<lparr>accepts := [0]\<rparr>))
      = (Some ErrFailedToWriteBytes, fresh idle)"
    by (simp add: f)
  from writeAll_short_and_partial[where tot = 0 and b = "[1, 2, 3]" and T = peerT
          and ew = "fresh (idle\<lparr>accepts := [2]\<rparr>)" and ?io1.0 = idle and n = 2
          and tw = "fresh (idle\<lparr>accepts := [2]\<rparr>, [])"
          and tw' = "fresh (idle, [EvWrite [1, 2, 3] 2, EvFlush, EvWrite [3] 1])"] h2 h3
  have c2: "writeAll_loop peerT [1, 2, 3] 0 (fresh (idle\<lparr>accepts := [2]\<rparr>))
      = writeAll_loop peerT [1, 2, 3] 2 (fresh idle)"
    and c3: "\<exists>evs. trace (fresh (idle, [EvWrite [1, 2, 3] 2, EvFlush, EvWrite [3] 1]))
             = trace (fresh (idle\<lparr>accepts := [2]\<rparr>, [])) @ evs \<and>
           concat (map accepted evs) = [1, 2, 3]"
    by (simp_all add: f)
  from h1 h2 h3 c1 c2 c3 show ?thesis by blast
qed

subsection \<open>Framing on the scripted peer\<close>

lemma length_PutUint32 [simp]: "length (PutUint32 v) = 4"
  by (simp add: PutUint32_def)

lemma length_PutUint64 [simp]: "length (PutUint64 v) = 8"
  by (simp add: PutUint64_def)

lemma Write_fresh_idle: "Write peerT entryA (fresh idle) = Some (None, oneOut idle)"
  by (simp add: Write_def writeFlush_def serviceAcks_def writeEntry_def writeEntry_header_def
      readAcks_empty writeAll_peer fresh_def idle_def entryA_def oneOut_def Full_def Free_def
      Count_def Add_def Let_def blit_eq ENTRY_HEADER_SIZE_def)


subsection \<open>forceAckNoLock\<close>

lemma serviceAcks_keeps: "serviceAcks T b ew = Some (e, ew') \<Longrightarrow> keeps ew ew'"
  by (rule serviceAcks_closed[OF keeps_wr keeps_rd])

lemma serviceAcks_extends: "serviceAcks (traced T) b ew = Some (e, ew') \<Longrightarrow> extends ew ew'"
  by (rule serviceAcks_closed[OF extends_wr extends_rd])

lemma throwAckSync_only_io: "throwAckSync T ew = (e, ew') \<Longrightarrow> only_io ew ew'"
  by (rule throwAckSync_wr[OF only_io_wr])

lemma throwAckSync_extends: "throwAckSync (traced T) ew = (e, ew') \<Longrightarrow> extends ew ew'"
  by (rule throwAckSync_wr[OF extends_wr])

lemma forceAckNoLock_loop_keeps:
  assumes h: "forceAckNoLock_loop T ew = Some (e, ew')"
  shows "keeps ew ew' \<and> (e = None \<longrightarrow> Count (ecb ew') = 0)"
proof -
  have "keeps ew (snd (e, ew')) \<and> (fst (e, ew') = None \<longrightarrow> Count (ecb (snd (e, ew'))) = 0)"
  proof (rule forceAckNoLock_loop.raw_induct[where
          P = "\<lambda>T ew y. keeps ew (snd y) \<and> (fst y = None \<longrightarrow> Count (ecb (snd y)) = 0)", OF _ h])
    fix f :: "'a transport \<Rightarrow> 'a EntryWriter \<Rightarrow> (error option \<times> 'a EntryWriter) option"
    fix T ew y
    assume IH: "\<And>T ew y. f T ew = Some y \<Longrightarrow>
                  keeps ew (snd y) \<and> (fst y = None \<longrightarrow> Count (ecb (snd y)) = 0)"
      and body: "(if Count (ecb ew) > 0 then
        (case conn_SetReadDeadline T (io ew) (Some (ackTimeout ew)) of
           (None, io1) \<Rightarrow>
             (case serviceAcks T True (ew\<lparr>io := io1\<rparr>) of
                None \<Rightarrow> None
              | Some (None, ew2) \<Rightarrow>
                  f T (ew2\<lparr>io := snd (conn_SetReadDeadline T (io ew2) None)\<rparr>)
              | Some (Some err, ew2) \<Rightarrow>
                  Some (Some err, ew2\<lparr>io := snd (conn_SetReadDeadline T (io ew2) None)\<rparr>))
         | (Some err, io1) \<Rightarrow> Some (Some err, ew\<lparr>io := io1\<rparr>))
      else Some (None, ew)) = Some y"
    show "keeps ew (snd y) \<and> (fst y = None \<longrightarrow> Count (ecb (snd y)) = 0)"
    proof (cases "Count (ecb ew) > 0")
      case False
      with body show ?thesis by (auto simp: keeps_refl)
    next
      case True
      obtain e1 io1 where d: "conn_SetReadDeadline T (io ew) (Some (ackTimeout ew)) = (e1, io1)"
        by (metis prod.exhaust)
      show ?thesis
      proof (cases e1)
        case (Some err)
        with body True d show ?thesis by (auto simp: keeps_io)
      next
        case None
        with body True d obtain e2 ew2 where s: "serviceAcks T True (ew\<lparr>io := io1\<rparr>) = Some (e2, ew2)"
          by (cases "serviceAcks T True (ew\<lparr>io := io1\<rparr>)") auto
        let ?ew3 = "ew2\<lparr>io := snd (conn_SetReadDeadline T (io ew2) None)\<rparr>"
        have "keeps ew (ew\<lparr>io := io1\<rparr>)" by (rule keeps_io)
        then have "keeps ew ew2" using serviceAcks_keeps[OF s] by (rule keeps_trans)
        then have k3: "keeps ew ?ew3" using keeps_io by (rule keeps_trans)
        show ?thesis
        proof (cases e2)
          case (Some err)
          with body True d None s k3 show ?thesis by auto
        next
          case n2: None
          with body True d None s have "f T ?ew3 = Some y" by simp
          from IH[OF this] k3 show ?thesis using keeps_trans by blast
        qed
      qed
    qed
  qed
  then show ?thesis by simp
qed

text \<open>
  The check after the loop never fires: the loop ends without error only on an empty
  confirmation buffer.
\<close>

lemma forceAckNoLock_is_loop:
  "throwAckSync T ew = (None, ew1) \<Longrightarrow> forceAckNoLock T ew = forceAckNoLock_loop T ew1"
proof (cases "forceAckNoLock_loop T ew1")
  case None
  assume "throwAckSync T ew = (None, ew1)"
  with None show ?thesis by (simp add: forceAckNoLock_def)
next
  case (Some y)
  assume t: "throwAckSync T ew = (None, ew1)"
  obtain e ew2 where y: "y = (e, ew2)" by (cases y)
  from forceAckNoLock_loop_keeps[OF Some[unfolded y]] t Some y show ?thesis
    by (cases e) (simp_all add: forceAckNoLock_def)
qed

lemma forceAckNoLock_keeps:
  assumes "forceAckNoLock T ew = Some (e, ew')"
  shows "keeps ew ew' \<and> (e = None \<longrightarrow> Count (ecb ew') = 0)"
proof -
  obtain e1 ew1 where t: "throwAckSync T ew = (e1, ew1)" by (metis prod.exhaust)
  have k1: "keeps ew ew1" by (rule only_io_keeps[OF throwAckSync_only_io[OF t]])
  show ?thesis
  proof (cases e1)
    case (Some err)
    with assms t k1 show ?thesis by (auto simp: forceAckNoLock_def)
  next
    case None
    with assms t have "forceAckNoLock_loop T ew1 = Some (e, ew')"
      using forceAckNoLock_is_loop[of T ew ew1] by simp
    from forceAckNoLock_loop_keeps[OF this] k1 show ?thesis using keeps_trans by blast
  qed
qed


lemma forceAckNoLock_loop_deadlines:
  assumes h: "forceAckNoLock_loop (traced T) ew = Some (e, ew')"
  shows "\<exists>evs. trace ew' = trace ew @ evs \<and>
               set (deadlines evs) \<subseteq> {Some (ackTimeout ew), None} \<and>
               (deadlines evs \<noteq> [] \<longrightarrow> hd (deadlines evs) = Some (ackTimeout ew))"
proof -
  let ?Q = "\<lambda>ew y. \<exists>evs. trace (snd y) = trace ew @ evs \<and>
               set (deadlines evs) \<subseteq> {Some (ackTimeout ew), None} \<and>
               (deadlines evs \<noteq> [] \<longrightarrow> hd (deadlines evs) = Some (ackTimeout ew))"
  have "\<forall>T0. traced T = traced T0 \<longrightarrow> ?Q ew (e, ew')"
  proof (rule forceAckNoLock_loop.raw_induct[where
          P = "\<lambda>T' ew y. \<forall>T. T' = traced T \<longrightarrow> ?Q ew y", OF _ h], intro allI impI)
    fix f :: "('a \<times> event list) transport \<Rightarrow> ('a \<times> event list) EntryWriter
                \<Rightarrow> (error option \<times> ('a \<times> event list) EntryWriter) option"
    fix T' ew y T
    assume IH: "\<And>T' ew y. f T' ew = Some y \<Longrightarrow> \<forall>T. T' = traced T \<longrightarrow> ?Q ew y"
      and body: "(if Count (ecb ew) > 0 then
        (case conn_SetReadDeadline T' (io ew) (Some (ackTimeout ew)) of
           (None, io1) \<Rightarrow>
             (case serviceAcks T' True (ew\<lparr>io := io1\<rparr>) of
                None \<Rightarrow> None
              | Some (None, ew2) \<Rightarrow>
                  f T' (ew2\<lparr>io := snd (conn_SetReadDeadline T' (io ew2) None)\<rparr>)
              | Some (Some err, ew2) \<Rightarrow>
                  Some (Some err, ew2\<lparr>io := snd (conn_SetReadDeadline T' (io ew2) None)\<rparr>))
         | (Some err, io1) \<Rightarrow> Some (Some err, ew\<lparr>io := io1\<rparr>))
      else Some (None, ew)) = Some y"
      and T': "T' = traced T"
    show "?Q ew y"
    proof (cases "Count (ecb ew) > 0")
      case False
      with body have "y = (None, ew)" by auto
      then show ?thesis by (intro exI[of _ "[]"]) simp
    next
      case True
      let ?d = "ackTimeout ew"
      obtain e1 s1 where d: "conn_SetReadDeadline T (fst (io ew)) (Some ?d) = (e1, s1)"
        by (metis prod.exhaust)
      let ?io1 = "(s1, snd (io ew) @ [EvSetReadDeadline (Some ?d)])"
      show ?thesis
      proof (cases e1)
        case (Some err)
        with body True d T' have "y = (Some err, ew\<lparr>io := ?io1\<rparr>)" by auto
        then show ?thesis
          by (intro exI[of _ "[EvSetReadDeadline (Some ?d)]"]) (simp add: trace_def)
      next
        case None
        with body True d T' obtain e2 ew2 where
          s: "serviceAcks (traced T) True (ew\<lparr>io := ?io1\<rparr>) = Some (e2, ew2)"
          by (cases "serviceAcks (traced T) True (ew\<lparr>io := ?io1\<rparr>)") auto
        from serviceAcks_extends[OF s] obtain evs1 where
          e1: "trace ew2 = snd (io ew) @ [EvSetReadDeadline (Some ?d)] @ evs1" "deadlines evs1 = []"
          by (auto simp: extends_def trace_def)
        from serviceAcks_keeps[OF s] have a2: "ackTimeout ew2 = ?d" by (simp add: keeps_def)
        let ?ew3 = "ew2\<lparr>io := snd (conn_SetReadDeadline (traced T) (io ew2) None)\<rparr>"
        have t3: "trace ?ew3 = snd (io ew) @ [EvSetReadDeadline (Some ?d)] @ evs1 @ [EvSetReadDeadline None]"
          using e1 by (simp add: trace_def split: prod.splits)
        show ?thesis
        proof (cases e2)
          case (Some err)
          with body True d None s T' have "y = (Some err, ?ew3)" by auto
          with t3 e1(2) show ?thesis
            by (intro exI[of _ "[EvSetReadDeadline (Some ?d)] @ evs1 @ [EvSetReadDeadline None]"])
               (simp add: trace_def)
        next
          case n2: None
          with body True d None s T' have "f (traced T) ?ew3 = Some y" by auto
          from IH[OF this] obtain evs where
            ev: "trace (snd y) = trace ?ew3 @ evs"
                "set (deadlines evs) \<subseteq> {Some (ackTimeout ?ew3), None}" by blast
          from ev(2) a2 have "set (deadlines evs) \<subseteq> {Some ?d, None}" by simp
          with ev(1) t3 e1(2) show ?thesis
            by (intro exI[of _ "[EvSetReadDeadline (Some ?d)] @ evs1 @ [EvSetReadDeadline None] @ evs"])
               (simp add: trace_def)
        qed
      qed
    qed
  qed
  then have "?Q ew (e, ew')" by blast
  then show ?thesis by simp
qed

lemma forceAckNoLock_deadlines:
  assumes h: "forceAckNoLock (traced T) ew = Some (e, ew')"
  shows "\<exists>evs. trace ew' = trace ew @ evs \<and>
               set (deadlines evs) \<subseteq> {Some (ackTimeout ew), None} \<and>
               (deadlines evs \<noteq> [] \<longrightarrow> hd (deadlines evs) = Some (ackTimeout ew))"
proof -
  obtain e1 ew1 where t: "throwAckSync (traced T) ew = (e1, ew1)" by (metis prod.exhaust)
  from throwAckSync_extends[OF t] obtain evs1 where
    e1: "trace ew1 = trace ew @ evs1" "deadlines evs1 = []" by (auto simp: extends_def)
  from throwAckSync_only_io[OF t] have a1: "ackTimeout ew1 = ackTimeout ew"
    by (simp add: only_io_def)
  show ?thesis
  proof (cases e1)
    case (Some err)
    with h t have "ew' = ew1" by (auto simp: forceAckNoLock_def)
    with e1 show ?thesis by (intro exI[of _ evs1]) simp
  next
    case None
    with h t have "forceAckNoLock_loop (traced T) ew1 = Some (e, ew')"
      using forceAckNoLock_is_loop[of "traced T" ew ew1] by simp
    from forceAckNoLock_loop_deadlines[OF this] obtain evs where
      "trace ew' = trace ew1 @ evs" "set (deadlines evs) \<subseteq> {Some (ackTimeout ew1), None}"
      "deadlines evs \<noteq> [] \<longrightarrow> hd (deadlines evs) = Some (ackTimeout ew1)" by blast
    with e1 a1 show ?thesis by (intro exI[of _ "evs1 @ evs"]) simp
  qed
qed

lemma readAcks_extends: "readAcks (traced T) b ew = Some (e, ew') \<Longrightarrow> extends ew ew'"
  by (rule readAcks_rd[OF extends_rd])

lemma readAcks_keeps: "readAcks T b ew = Some (e, ew') \<Longrightarrow> keeps ew ew'"
  by (rule readAcks_rd[OF keeps_rd])

lemma Close_deadlines:
  assumes h: "Close (traced T) ew = Some (e, ew')"
  shows "\<exists>evs. trace ew' = trace ew @ evs \<and>
               set (deadlines evs) \<subseteq> {Some (ackTimeout ew), None} \<and>
               (deadlines evs \<noteq> [] \<longrightarrow> hd (deadlines evs) = Some (ackTimeout ew))"
proof -
  let ?d = "ackTimeout ew"
  from h obtain e1 ew1 where f: "forceAckNoLock (traced T) ew = Some (e1, ew1)"
    by (cases "forceAckNoLock (traced T) ew") (auto simp: Close_def)
  from forceAckNoLock_deadlines[OF f] obtain evs1 where
    e1: "trace ew1 = trace ew @ evs1" "set (deadlines evs1) \<subseteq> {Some ?d, None}"
        "deadlines evs1 \<noteq> [] \<longrightarrow> hd (deadlines evs1) = Some ?d" by blast
  from forceAckNoLock_keeps[OF f] have a1: "ackTimeout ew1 = ?d" by (simp add: keeps_def)
  show ?thesis
  proof (cases e1)
    case (Some err)
    with h f have "ew' = ew1\<lparr>io := conn_Close (traced T) (io ew1), hot := False\<rparr>"
      by (auto simp: Close_def)
    with e1 show ?thesis
      by (intro exI[of _ "evs1 @ [EvClose]"]) (simp add: trace_def)
  next
    case None
    obtain e2 s2 where d: "conn_SetReadDeadline T (fst (io ew1)) (Some ?d) = (e2, s2)"
      by (metis prod.exhaust)
    let ?io2 = "(s2, snd (io ew1) @ [EvSetReadDeadline (Some ?d)])"
    show ?thesis
    proof (cases e2)
      case (Some err)
      with h f None d a1 have "ew' = ew1\<lparr>io := conn_Close (traced T) ?io2, hot := False\<rparr>"
        by (auto simp: Close_def)
      with e1 show ?thesis
        by (intro exI[of _ "evs1 @ [EvSetReadDeadline (Some ?d), EvClose]"])
           (auto simp: trace_def hd_append)
    next
      case n2: None
      with h f None d a1 obtain ew3 where
        r: "readAcks (traced T) True (ew1\<lparr>io := ?io2\<rparr>) = Some (e, ew3)"
        and c: "ew' = ew3\<lparr>io := conn_Close (traced T) (io ew3), hot := False\<rparr>"
        by (cases "readAcks (traced T) True (ew1\<lparr>io := ?io2\<rparr>)") (auto simp: Close_def)
      from readAcks_extends[OF r] obtain evs3 where
        e3: "trace ew3 = snd (io ew1) @ [EvSetReadDeadline (Some ?d)] @ evs3" "deadlines evs3 = []"
        by (auto simp: extends_def trace_def)
      with c e1 show ?thesis
        by (intro exI[of _ "evs1 @ [EvSetReadDeadline (Some ?d)] @ evs3 @ [EvClose]"])
           (auto simp: trace_def hd_append)
    qed
  qed
qed


lemma ForceAck_silent:
  "ForceAck peerT (oneOut idle) = Some (Some ErrTimeout, oneOut idle)"
  by (simp add: ForceAck_def forceAckNoLock_def throwAckSync_def writeAll_peer
      forceAckNoLock_loop.simps serviceAcks_def readAcks.simps readAcks_frame_def
      oneOut_def idle_def Count_def ACK_SIZE_def)

lemma ForceAck_nothing_outstanding:
  "ForceAck peerT (fresh idle) = Some (None, fresh idle)"
  by (simp add: ForceAck_def forceAckNoLock_def throwAckSync_def writeAll_peer
      forceAckNoLock_loop.simps fresh_def idle_def Count_def)

lemma ForceAck_silent_traced:
  "ForceAck (traced peerT) (oneOut (idle, [])\<lparr>ackTimeout := d\<rparr>) =
     Some (Some ErrTimeout,
           oneOut (idle, [EvWrite (PutUint32 FORCE_ACK_MAGIC) 4, EvFlush,
                          EvSetReadDeadline (Some d), EvReadFull 12, EvSetReadDeadline None])
             \<lparr>ackTimeout := d\<rparr>)"
  by (simp add: ForceAck_def forceAckNoLock_def throwAckSync_def writeAll_traced_peer
      forceAckNoLock_loop.simps serviceAcks_def readAcks.simps readAcks_frame_def
      oneOut_def idle_def Count_def ACK_SIZE_def PutUint32_def)

lemma Close_silent_traced:
  "Close (traced peerT) (oneOut (idle, [])\<lparr>ackTimeout := d\<rparr>) =
     Some (Some ErrTimeout,
           oneOut (idle, [EvWrite (PutUint32 FORCE_ACK_MAGIC) 4, EvFlush,
                          EvSetReadDeadline (Some d), EvReadFull 12, EvSetReadDeadline None,
                          EvClose])
             \<lparr>ackTimeout := d, hot := False\<rparr>)"
  using ForceAck_silent_traced[of d]
  by (simp add: Close_def ForceAck_def oneOut_def)

text \<open>
  Claim C4, as amended. ForceAck returns without error only when nothing is outstanding,
  and it adds nothing to the outstanding entries. When a read of the drain fails (the
  read runs into the deadline because the peer never replies), ForceAck returns the
  error of that read, not an error that counts the unconfirmed entries, and the
  outstanding entries are those of before.
\<close>

theorem ForceAck_returns_read_error:
  "(ForceAck T ew = Some (None, ew') \<longrightarrow> Count (ecb ew') = 0) \<and>
   (ForceAck T ew = Some (e, ew') \<longrightarrow>
      (\<exists>k. outstandingEntries ew' = drop k (outstandingEntries ew))) \<and>
   (throwAckSync T ew = (None, ew1) \<and> 0 < Count (ecb ew1) \<and>
    conn_SetReadDeadline T (io ew1) (Some (ackTimeout ew1)) = (None, io2) \<and>
    bIO_Buffered T io2 = 0 \<and> bAckReader_ReadFull T io2 ACK_SIZE = (Inl err, io3) \<longrightarrow>
      (\<exists>ew2. ForceAck T ew = Some (Some err, ew2) \<and>
             outstandingEntries ew2 = outstandingEntries ew))"
proof (intro conjI impI)
  assume "ForceAck T ew = Some (None, ew')"
  then show "Count (ecb ew') = 0"
    using forceAckNoLock_keeps[of T ew None ew'] by (simp add: ForceAck_def)
next
  assume "ForceAck T ew = Some (e, ew')"
  then have "keeps ew ew'" using forceAckNoLock_keeps[of T ew e ew'] by (simp add: ForceAck_def)
  then obtain k where "recs (ecb ew') = drop k (recs (ecb ew))" by (auto simp: keeps_def)
  then have "outstandingEntries ew' = drop k (outstandingEntries ew)"
    by (simp add: outstandingEntries_def outstandingEntries_ecb_def drop_map)
  then show "\<exists>k. outstandingEntries ew' = drop k (outstandingEntries ew)" by blast
next
  assume a: "throwAckSync T ew = (None, ew1) \<and> 0 < Count (ecb ew1) \<and>
    conn_SetReadDeadline T (io ew1) (Some (ackTimeout ew1)) = (None, io2) \<and>
    bIO_Buffered T io2 = 0 \<and> bAckReader_ReadFull T io2 ACK_SIZE = (Inl err, io3)"
  then have t: "throwAckSync T ew = (None, ew1)" by simp
  from throwAckSync_only_io[OF t] have o: "ecb ew1 = ecb ew" by (simp add: only_io_def)
  have r: "readAcks T True (ew1\<lparr>io := io2\<rparr>) = Some (Some err, ew1\<lparr>io := io3\<rparr>)"
    using a by (subst readAcks.simps) (simp add: readAcks_frame_def)
  have s: "serviceAcks T True (ew1\<lparr>io := io2\<rparr>) = Some (Some err, ew1\<lparr>io := io3\<rparr>)"
    using a r by (simp add: serviceAcks_def)
  have "forceAckNoLock_loop T ew1 =
          Some (Some err, ew1\<lparr>io := snd (conn_SetReadDeadline T io3 None)\<rparr>)"
    using a s by (subst forceAckNoLock_loop.simps) simp
  then have "ForceAck T ew = Some (Some err, ew1\<lparr>io := snd (conn_SetReadDeadline T io3 None)\<rparr>)"
    using forceAckNoLock_is_loop[OF t] by (simp add: ForceAck_def)
  moreover have "outstandingEntries (ew1\<lparr>io := snd (conn_SetReadDeadline T io3 None)\<rparr>)
                   = outstandingEntries ew"
    using o by (simp add: outstandingEntries_def)
  ultimately show "\<exists>ew2. ForceAck T ew = Some (Some err, ew2) \<and>
             outstandingEntries ew2 = outstandingEntries ew" by blast
qed

theorem ForceAck_returns_read_error_witness:
  "ForceAck peerT (fresh idle) = Some (None, fresh idle) \<and> Count (ecb (fresh idle)) = 0 \<and>
   throwAckSync peerT (oneOut idle) = (None, oneOut idle) \<and> 0 < Count (ecb (oneOut idle)) \<and>
   conn_SetReadDeadline peerT (io (oneOut idle)) (Some (ackTimeout (oneOut idle))) = (None, idle) \<and>
   bIO_Buffered peerT idle = 0 \<and> bAckReader_ReadFull peerT idle ACK_SIZE = (Inl ErrTimeout, idle) \<and>
   (\<exists>ew2. ForceAck peerT (oneOut idle) = Some (Some ErrTimeout, ew2) \<and>
          outstandingEntries ew2 = outstandingEntries (oneOut idle)) \<and>
   (\<exists>k. outstandingEntries (fresh idle) = drop k (outstandingEntries (fresh idle)))"
proof -
  have h1: "ForceAck peerT (fresh idle) = Some (None, fresh idle)"
    by (rule ForceAck_nothing_outstanding)
  have h2: "throwAckSync peerT (oneOut idle) = (None, oneOut idle) \<and>
    0 < Count (ecb (oneOut idle)) \<and>
    conn_SetReadDeadline peerT (io (oneOut idle)) (Some (ackTimeout (oneOut idle))) = (None, idle) \<and>
    bIO_Buffered peerT idle = 0 \<and> bAckReader_ReadFull peerT idle ACK_SIZE = (Inl ErrTimeout, idle)"
    by (simp add: throwAckSync_def writeAll_peer oneOut_def idle_def Count_def ACK_SIZE_def)
  note c = ForceAck_returns_read_error[where T = peerT and ew = "fresh idle" and ew' = "fresh idle"
      and e = None]
  note c' = ForceAck_returns_read_error[where T = peerT and ew = "oneOut idle"
      and ?ew1.0 = "oneOut idle" and ?io2.0 = idle and ?io3.0 = idle and err = ErrTimeout]
  from c h1 have "Count (ecb (fresh idle)) = 0"
    and "\<exists>k. outstandingEntries (fresh idle) = drop k (outstandingEntries (fresh idle))"
    by blast+
  moreover from c' h2 have "\<exists>ew2. ForceAck peerT (oneOut idle) = Some (Some ErrTimeout, ew2) \<and>
          outstandingEntries ew2 = outstandingEntries (oneOut idle)" by blast
  ultimately show ?thesis using h1 h2 by blast
qed

text \<open>
  The claim as stated fails: one entry is outstanding and the peer never replies;
  ForceAck returns the error of the read that ran into the deadline, which is no count
  of unconfirmed entries. The entry is still outstanding.
\<close>

theorem ForceAck_incomplete_counterexample:
  "ForceAck peerT (oneOut idle) = Some (Some ErrTimeout, oneOut idle) \<and>
   ErrTimeout \<noteq> ErrFailedToConfirm 1 \<and>
   outstandingEntries (oneOut idle) = [entryA]"
  using ForceAck_silent
  by (simp add: ErrTimeout_def outstandingEntries_def outstandingEntries_ecb_def oneOut_def)

text \<open>
  Claim C9. OverrideAckTimeout stores the duration before it checks it: with a duration
  that is not positive it returns the error "invalid duration" and the writer holds that
  duration as its ack timeout all the same (as it does for every duration). Every read
  deadline that a later ForceAck or Close sets is that duration from now, and the first
  deadline set is.
\<close>

theorem OverrideAckTimeout_stores_before_check:
  assumes "d \<le> 0"
  shows "OverrideAckTimeout d ew = (Some ErrInvalidDuration, ew\<lparr>ackTimeout := d\<rparr>) \<and>
         snd (OverrideAckTimeout t ew) = ew\<lparr>ackTimeout := t\<rparr> \<and>
         (ForceAck (traced T) (snd (OverrideAckTimeout d tw)) = Some (e, tw') \<longrightarrow>
            (\<exists>evs. trace tw' = trace tw @ evs \<and> set (deadlines evs) \<subseteq> {Some d, None} \<and>
                   (deadlines evs \<noteq> [] \<longrightarrow> hd (deadlines evs) = Some d))) \<and>
         (Close (traced T) (snd (OverrideAckTimeout d tw)) = Some (e, tw') \<longrightarrow>
            (\<exists>evs. trace tw' = trace tw @ evs \<and> set (deadlines evs) \<subseteq> {Some d, None} \<and>
                   (deadlines evs \<noteq> [] \<longrightarrow> hd (deadlines evs) = Some d)))"
proof -
  have s: "snd (OverrideAckTimeout d tw) = tw\<lparr>ackTimeout := d\<rparr>"
    by (simp add: OverrideAckTimeout_def Let_def)
  have tr: "trace (tw\<lparr>ackTimeout := d\<rparr>) = trace tw" by (simp add: trace_def)
  show ?thesis
    using assms forceAckNoLock_deadlines[of T "tw\<lparr>ackTimeout := d\<rparr>" e tw']
      Close_deadlines[of T "tw\<lparr>ackTimeout := d\<rparr>" e tw']
    by (simp add: s tr ForceAck_def) (simp add: OverrideAckTimeout_def Let_def)
qed

theorem OverrideAckTimeout_stores_before_check_witness:
  "(-5 :: int) \<le> 0 \<and>
   OverrideAckTimeout (-5) (oneOut idle) = (Some ErrInvalidDuration, oneOut idle\<lparr>ackTimeout := -5\<rparr>) \<and>
   ForceAck (traced peerT) (snd (OverrideAckTimeout (-5) (oneOut (idle, [])))) =
     Some (Some ErrTimeout,
           oneOut (idle, [EvWrite (PutUint32 FORCE_ACK_MAGIC) 4, EvFlush,
                          EvSetReadDeadline (Some (-5)), EvReadFull 12, EvSetReadDeadline None])
             \<lparr>ackTimeout := -5\<rparr>) \<and>
   (\<exists>evs. trace (oneOut (idle, [EvWrite (PutUint32 FORCE_ACK_MAGIC) 4, EvFlush,
                          EvSetReadDeadline (Some (-5)), EvReadFull 12, EvSetReadDeadline None])
             \<lparr>ackTimeout := -5\<rparr>) = trace (oneOut (idle, [])) @ evs \<and>
          set (deadlines evs) \<subseteq> {Some (-5), None} \<and>
          (deadlines evs \<noteq> [] \<longrightarrow> hd (deadlines evs) = Some (-5))) \<and>
   Close (traced peerT) (snd (OverrideAckTimeout (-5) (oneOut (idle, [])))) =
     Some (Some ErrTimeout,
           oneOut (idle, [EvWrite (PutUint32 FORCE_ACK_MAGIC) 4, EvFlush,
                          EvSetReadDeadline (Some (-5)), EvReadFull 12, EvSetReadDeadline None,
                          EvClose])
             \<lparr>ackTimeout := -5, hot := False\<rparr>) \<and>
   (\<exists>evs. trace (oneOut (idle, [EvWrite (PutUint32 FORCE_ACK_MAGIC) 4, EvFlush,
                          EvSetReadDeadline (Some (-5)), EvReadFull 12, EvSetReadDeadline None,
                          EvClose])
             \<lparr>ackTimeout := -5, hot := False\<rparr>) = trace (oneOut (idle, [])) @ evs \<and>
          set (deadlines evs) \<subseteq> {Some (-5), None} \<and>
          (deadlines evs \<noteq> [] \<longrightarrow> hd (deadlines evs) = Some (-5)))"
proof -
  have h: "(-5 :: int) \<le> 0" by simp
  have s: "snd (OverrideAckTimeout (-5) (oneOut (idle, []))) = oneOut (idle, [])\<lparr>ackTimeout := -5\<rparr>"
    by (simp add: OverrideAckTimeout_def Let_def)
  have f: "ForceAck (traced peerT) (snd (OverrideAckTimeout (-5) (oneOut (idle, [])))) =
     Some (Some ErrTimeout,
           oneOut (idle, [EvWrite (PutUint32 FORCE_ACK_MAGIC) 4, EvFlush,
                          EvSetReadDeadline (Some (-5)), EvReadFull 12, EvSetReadDeadline None])
             \<lparr>ackTimeout := -5\<rparr>)"
    unfolding s by (rule ForceAck_silent_traced)
  note c = OverrideAckTimeout_stores_before_check[OF h, where ew = "oneOut idle" and T = peerT
      and tw = "oneOut (idle, [])" and e = "Some ErrTimeout"
      and tw' = "oneOut (idle, [EvWrite (PutUint32 FORCE_ACK_MAGIC) 4, EvFlush,
                          EvSetReadDeadline (Some (-5)), EvReadFull 12, EvSetReadDeadline None])
             \<lparr>ackTimeout := -5\<rparr>"]
  have g: "Close (traced peerT) (snd (OverrideAckTimeout (-5) (oneOut (idle, [])))) =
     Some (Some ErrTimeout,
           oneOut (idle, [EvWrite (PutUint32 FORCE_ACK_MAGIC) 4, EvFlush,
                          EvSetReadDeadline (Some (-5)), EvReadFull 12, EvSetReadDeadline None,
                          EvClose])
             \<lparr>ackTimeout := -5, hot := False\<rparr>)"
    unfolding s by (rule Close_silent_traced)
  note c' = OverrideAckTimeout_stores_before_check[OF h, where ew = "oneOut idle" and T = peerT
      and tw = "oneOut (idle, [])" and e = "Some ErrTimeout"
      and tw' = "oneOut (idle, [EvWrite (PutUint32 FORCE_ACK_MAGIC) 4, EvFlush,
                          EvSetReadDeadline (Some (-5)), EvReadFull 12, EvSetReadDeadline None,
                          EvClose])
             \<lparr>ackTimeout := -5, hot := False\<rparr>"]
  from c f h c' g show ?thesis by blast
qed

subsection \<open>writeEntry\<close>

lemma writeAll_only_io: "writeAll T b ew = (e, ew') \<Longrightarrow> only_io ew ew'"
  by (rule writeAll_wr[OF only_io_wr])

lemma writeAll_extends: "writeAll (traced T) b ew = (e, ew') \<Longrightarrow> extends ew ew'"
  by (rule writeAll_wr[OF extends_wr])

lemma writeEntry_header_closed:
  assumes W: "wr_closed T R" and R: "rd_closed T R"
    and h: "writeEntry_header T ent ew = Some (e, ew5)"
  shows "R ew ew5"
proof -
  define r1 where "r1 = (if Full (ecb ew) then
              (case bIO_Flush T (io ew) of
                 (Some err, io1) \<Rightarrow> Some (Some err, ew\<lparr>io := io1\<rparr>)
               | (None, io1) \<Rightarrow> serviceAcks T True (ew\<lparr>io := io1\<rparr>))
            else Some (None, ew))"
  from h obtain e1 ew1 where r: "r1 = Some (e1, ew1)"
    by (cases r1) (auto simp: writeEntry_header_def r1_def)
  have k1: "R ew ew1"
  proof (cases "Full (ecb ew)")
    case False
    with r show ?thesis by (simp add: r1_def rd_refl[OF R])
  next
    case True
    obtain ef io1 where f: "bIO_Flush T (io ew) = (ef, io1)" by (metis prod.exhaust)
    have a: "R ew (ew\<lparr>io := io1\<rparr>)" by (rule wr_Flush[OF W f])
    show ?thesis
    proof (cases ef)
      case (Some err)
      with r True f a show ?thesis by (auto simp: r1_def)
    next
      case None
      with r True f have "serviceAcks T True (ew\<lparr>io := io1\<rparr>) = Some (e1, ew1)"
        by (simp add: r1_def)
      from a serviceAcks_closed[OF W R this] show ?thesis by (rule rd_trans[OF R])
    qed
  qed
  show ?thesis
  proof (cases e1)
    case (Some err)
    with h r k1 show ?thesis by (auto simp: writeEntry_header_def r1_def[symmetric])
  next
    case None
    define ew2 where "ew2 = ew1\<lparr>buff := blit (buff ew1) 0 (PutUint32 NEW_ENTRY_MAGIC)\<rparr>"
    have k2: "R ew ew2" unfolding ew2_def using k1 rd_blit[OF R] by (rule rd_trans[OF R])
    show ?thesis
    proof (cases "EncodeHeader ent")
      case (Inl err)
      with h r None k2 show ?thesis
        by (auto simp: writeEntry_header_def r1_def[symmetric] ew2_def Let_def)
    next
      case (Inr hdr)
      define ew3 where "ew3 = ew2\<lparr>buff := blit (buff ew2) 4 (take ENTRY_HEADER_SIZE hdr)\<rparr>"
      define ew4 where "ew4 = ew3\<lparr>buff := blit (buff ew3) (ENTRY_HEADER_SIZE + 4)
                                               (PutUint64 (id_ew ew3))\<rparr>"
      have k3: "R ew ew3" unfolding ew3_def using k2 rd_blit[OF R] by (rule rd_trans[OF R])
      have k4: "R ew ew4" unfolding ew4_def using k3 rd_blit[OF R] by (rule rd_trans[OF R])
      from h r None Inr have "writeAll T (buff ew4) ew4 = (e, ew5)"
        by (simp add: writeEntry_header_def r1_def[symmetric] ew2_def ew3_def ew4_def Let_def)
      from k4 writeAll_wr[OF W this] show ?thesis by (rule rd_trans[OF R])
    qed
  qed
qed

lemma writeEntry_header_keeps: "writeEntry_header T ent ew = Some (e, ew5) \<Longrightarrow> keeps ew ew5"
  by (rule writeEntry_header_closed[OF keeps_wr keeps_rd])

lemma writeEntry_header_extends:
  "writeEntry_header (traced T) ent ew = Some (e, ew5) \<Longrightarrow> extends ew ew5"
  by (rule writeEntry_header_closed[OF extends_wr extends_rd])

lemma Uint32_PutUint32_only [simp]: "Uint32 (PutUint32 v) = v"
  using Uint32_PutUint32[of v "[]"] by simp

lemma Uint64_PutUint64_only [simp]: "Uint64 (PutUint64 v) = v"
  using Uint64_PutUint64[of v "[]"] by simp

lemma sentID_blit:
  "length b = READ_ENTRY_HEADER_SIZE \<Longrightarrow>
     Uint64 (drop (ENTRY_HEADER_SIZE + 4) (blit b (ENTRY_HEADER_SIZE + 4) (PutUint64 i))) = i"
  by (simp add: blit_eq READ_ENTRY_HEADER_SIZE_def ENTRY_HEADER_SIZE_def)

lemma writeEntry_header_sentID:
  assumes h: "writeEntry_header T ent ew = Some (None, ew5)"
    and l: "length (buff ew) = READ_ENTRY_HEADER_SIZE"
  shows "sentID ew5 = id_ew ew"
proof -
  define r1 where "r1 = (if Full (ecb ew) then
              (case bIO_Flush T (io ew) of
                 (Some err, io1) \<Rightarrow> Some (Some err, ew\<lparr>io := io1\<rparr>)
               | (None, io1) \<Rightarrow> serviceAcks T True (ew\<lparr>io := io1\<rparr>))
            else Some (None, ew))"
  from h obtain ew1 where r: "r1 = Some (None, ew1)"
    by (cases r1) (auto simp: writeEntry_header_def r1_def split: option.splits)
  have k1: "keeps ew ew1"
  proof (cases "Full (ecb ew)")
    case False
    with r show ?thesis by (simp add: r1_def keeps_refl)
  next
    case True
    obtain ef io1 where f: "bIO_Flush T (io ew) = (ef, io1)" by (metis prod.exhaust)
    with r True have "serviceAcks T True (ew\<lparr>io := io1\<rparr>) = Some (None, ew1)"
      by (cases ef) (auto simp: r1_def)
    from keeps_io serviceAcks_keeps[OF this] show ?thesis by (rule keeps_trans)
  qed
  then have l1: "length (buff ew1) = READ_ENTRY_HEADER_SIZE" and i1: "id_ew ew1 = id_ew ew"
    using l by (simp_all add: keeps_def)
  from h r obtain hdr where hd: "EncodeHeader ent = Inr hdr"
    by (cases "EncodeHeader ent") (auto simp: writeEntry_header_def r1_def[symmetric] Let_def)
  define b3 where "b3 = blit (blit (buff ew1) 0 (PutUint32 NEW_ENTRY_MAGIC)) 4 (take ENTRY_HEADER_SIZE hdr)"
  define ew4 where "ew4 = ew1\<lparr>buff := blit b3 (ENTRY_HEADER_SIZE + 4) (PutUint64 (id_ew ew1))\<rparr>"
  from h r hd have w: "writeAll T (buff ew4) ew4 = (None, ew5)"
    by (simp add: writeEntry_header_def r1_def[symmetric] ew4_def b3_def Let_def)
  from writeAll_only_io[OF w] have "buff ew5 = buff ew4" by (simp add: only_io_def)
  moreover have "length b3 = READ_ENTRY_HEADER_SIZE" using l1 by (simp add: b3_def)
  ultimately show ?thesis using i1 by (simp add: sentID_def ew4_def sentID_blit)
qed

lemma writeEntry_fails:
  assumes "writeEntry T ent fl ew = Some ((b, Some err), ew')"
  shows "keeps ew ew' \<and> b = False"
proof -
  from assms obtain e5 ew5 where h: "writeEntry_header T ent ew = Some (e5, ew5)"
    by (cases "writeEntry_header T ent ew") (auto simp: writeEntry_def)
  have k5: "keeps ew ew5" by (rule writeEntry_header_keeps[OF h])
  show ?thesis
  proof (cases e5)
    case (Some x)
    with assms h k5 show ?thesis by (auto simp: writeEntry_def)
  next
    case None
    define ew6 where "ew6 = (if length (Data ent) > bIO_Available T (io ew5)
                             then ew5\<lparr>io := snd (bIO_Flush T (io ew5))\<rparr> else ew5)"
    obtain e7 ew7 where w: "writeAll T (Data ent) ew6 = (e7, ew7)" by (metis prod.exhaust)
    define ew8 where "ew8 = (if fl then ew7\<lparr>io := snd (bIO_Flush T (io ew7))\<rparr> else ew7)"
    have k6: "keeps ew ew6" unfolding ew6_def using k5 keeps_io keeps_trans by fastforce
    have k7: "keeps ew ew7" using k6 only_io_keeps[OF writeAll_only_io[OF w]] by (rule keeps_trans)
    have k8: "keeps ew ew8" unfolding ew8_def using k7 keeps_io keeps_trans by fastforce
    have k9: "keeps ew (ew8\<lparr>ecb := ecb ew8\<rparr>)" using k8 by simp
    from assms h None w show ?thesis
      using k6 k7 k8 k9
      by (auto simp: writeEntry_def Let_def ew6_def ew8_def Add_def
               split: prod.splits option.splits if_splits)
  qed
qed

lemma writeEntry_succeeds:
  assumes "writeEntry T ent fl ew = Some ((b, None), ew')"
  shows "id_ew ew' = id_ew ew + 1 \<and> ackTimeout ew' = ackTimeout ew \<and> hot ew' = hot ew \<and>
         length (buff ew') = length (buff ew) \<and> capacity (ecb ew') = capacity (ecb ew) \<and>
         (\<exists>k. recs (ecb ew') = drop k (recs (ecb ew)) @ [(id_ew ew, ent)]) \<and>
         (length (buff ew) = READ_ENTRY_HEADER_SIZE \<longrightarrow> sentID ew' = id_ew ew)"
proof -
  from assms obtain ew5 where h: "writeEntry_header T ent ew = Some (None, ew5)"
    by (cases "writeEntry_header T ent ew") (auto simp: writeEntry_def split: option.splits)
  have k5: "keeps ew ew5" by (rule writeEntry_header_keeps[OF h])
  define ew6 where "ew6 = (if length (Data ent) > bIO_Available T (io ew5)
                           then ew5\<lparr>io := snd (bIO_Flush T (io ew5))\<rparr> else ew5)"
  obtain e7 ew7 where w: "writeAll T (Data ent) ew6 = (e7, ew7)" by (metis prod.exhaust)
  define ew8 where "ew8 = (if fl then ew7\<lparr>io := snd (bIO_Flush T (io ew7))\<rparr> else ew7)"
  have o6: "only_io ew5 ew6" by (simp add: ew6_def only_io_def)
  have o7: "only_io ew6 ew7" by (rule writeAll_only_io[OF w])
  have o8: "only_io ew7 ew8" by (simp add: ew8_def only_io_def)
  from o6 o7 o8 have o: "only_io ew5 ew8" by (simp add: only_io_def)
  from assms h w have e: "ew' = ew8\<lparr>ecb := (ecb ew8)\<lparr>recs := recs (ecb ew8) @ [(id_ew ew8, ent)]\<rparr>,
                                    id_ew := id_ew ew8 + 1\<rparr>"
    by (auto simp: writeEntry_def Let_def ew6_def ew8_def Add_def
             split: prod.splits option.splits if_splits)
  from k5 obtain k where k: "recs (ecb ew5) = drop k (recs (ecb ew))" by (auto simp: keeps_def)
  have s: "length (buff ew) = READ_ENTRY_HEADER_SIZE \<longrightarrow> sentID ew5 = id_ew ew"
    using writeEntry_header_sentID[OF h] by simp
  show ?thesis using e o k5 k s
    by (auto simp: only_io_def keeps_def sentID_def)
qed


subsection \<open>Write and the send-ids\<close>











subsection \<open>One round of readAcks\<close>

lemma length_confirmFrame [simp]: "length (confirmFrame i) = 12"
  by (simp add: confirmFrame_def)

lemma drop_4_confirmFrame [simp]: "drop 4 (confirmFrame i) = PutUint64 i"
  by (simp add: confirmFrame_def)

lemma Confirm_err: "fst (Confirm i b) = None \<or> fst (Confirm i b) = Some errEntryNotFound"
  by (simp add: Confirm_def split: option.splits)

lemma readAcks_confirm_step:
  assumes "0 < Count (ecb ew)" and "ACK_SIZE \<le> bAckReader_Buffered T (io ew) \<or> b"
    and "readAcks_frame T ew = (Inr (Some i), ew1)"
  shows "readAcks T b ew = readAcks T False (ew1\<lparr>ecb := snd (Confirm i (ecb ew1))\<rparr>)"
  using assms Confirm_err[of i "ecb ew1"]
  by (subst readAcks.simps) (auto split: prod.splits)

lemma readAcks_skip_step:
  assumes "0 < Count (ecb ew)" and "ACK_SIZE \<le> bAckReader_Buffered T (io ew) \<or> b"
    and "readAcks_frame T ew = (Inr None, ew1)"
  shows "readAcks T b ew = readAcks T b ew1"
  using assms by (subst readAcks.simps) simp

lemma readAcks_error_step:
  assumes "0 < Count (ecb ew)" and "ACK_SIZE \<le> bAckReader_Buffered T (io ew) \<or> b"
    and "readAcks_frame T ew = (Inl err, ew1)"
  shows "readAcks T b ew = Some (Some err, ew1)"
  using assms by (subst readAcks.simps) simp

lemma readAcks_frame_at0:
  assumes "bAckReader_ReadFull T (io ew) ACK_SIZE = (Inr (confirmFrame i), io1)"
    and "ACK_SIZE \<le> length (buff ew)"
  shows "readAcks_frame T ew =
           (Inr (Some i), ew\<lparr>io := io1, buff := confirmFrame i @ drop ACK_SIZE (buff ew)\<rparr>)"
proof -
  have b: "blit (buff ew) 0 (take ACK_SIZE (confirmFrame i)) = confirmFrame i @ drop ACK_SIZE (buff ew)"
    using assms(2) by (simp add: blit_eq ACK_SIZE_def)
  have m: "Uint32 (confirmFrame i @ drop ACK_SIZE (buff ew)) = CONFIRM_ENTRY_MAGIC"
    by (simp add: confirmFrame_def)
  have d: "Uint64 (drop 4 (confirmFrame i @ drop ACK_SIZE (buff ew))) = i"
    by (simp add: confirmFrame_def)
  show ?thesis using assms(1) by (simp add: readAcks_frame_def b m Let_def)
qed


subsection \<open>The flag of writeEntry\<close>

lemma writeEntry_header_full_flushes:
  assumes F: "Full (ecb ew)" and h: "writeEntry_header (traced T) ent ew = Some (e, ew5)"
  shows "\<exists>evs. trace ew5 = trace ew @ EvFlush # evs"
proof -
  obtain ef s1 where f: "bIO_Flush T (fst (io ew)) = (ef, s1)" by (metis prod.exhaust)
  let ?ewF = "ew\<lparr>io := (s1, snd (io ew) @ [EvFlush])\<rparr>"
  have tF: "trace ?ewF = trace ew @ [EvFlush]" by (simp add: trace_def)
  show ?thesis
  proof (cases ef)
    case (Some err)
    with h F f have "ew5 = ?ewF" by (auto simp: writeEntry_header_def)
    with tF show ?thesis by simp
  next
    case None
    with h F f obtain e1 ew1 where s: "serviceAcks (traced T) True ?ewF = Some (e1, ew1)"
      by (cases "serviceAcks (traced T) True ?ewF") (auto simp: writeEntry_header_def)
    from serviceAcks_extends[OF s] tF obtain evs1 where
      t1: "trace ew1 = trace ew @ EvFlush # evs1" by (auto simp: extends_def)
    show ?thesis
    proof (cases e1)
      case (Some err)
      with h F f None s have "ew5 = ew1" by (auto simp: writeEntry_header_def)
      with t1 show ?thesis by blast
    next
      case n1: None
      show ?thesis
      proof (cases "EncodeHeader ent")
        case (Inl err)
        with h F f None s n1 have "trace ew5 = trace ew1"
          by (auto simp: writeEntry_header_def Let_def trace_def)
        with t1 show ?thesis by simp
      next
        case (Inr hdr)
        define ew4 where "ew4 = ew1\<lparr>buff := blit (blit (blit (buff ew1) 0 (PutUint32 NEW_ENTRY_MAGIC)) 4
                 (take ENTRY_HEADER_SIZE hdr)) (ENTRY_HEADER_SIZE + 4) (PutUint64 (id_ew ew1))\<rparr>"
        have t4: "trace ew4 = trace ew1" by (simp add: ew4_def trace_def)
        from h F f None s n1 Inr have "writeAll (traced T) (buff ew4) ew4 = (e, ew5)"
          by (auto simp: writeEntry_header_def Let_def ew4_def)
        from writeAll_extends[OF this] t4 t1 show ?thesis
          by (auto simp: extends_def)
      qed
    qed
  qed
qed

lemma writeEntry_tail_trace:
  assumes "writeEntry (traced T) ent flush ew = Some ((fl, None), ew')"
  shows "\<exists>ew5 evs. writeEntry_header (traced T) ent ew = Some (None, ew5) \<and>
           fl = (flush \<or> bIO_Available (traced T) (io ew5) < length (Data ent)) \<and>
           trace ew' = trace ew5 @ evs \<and> (fl \<longrightarrow> 0 < flushes evs)"
proof -
  from assms obtain ew5 where h: "writeEntry_header (traced T) ent ew = Some (None, ew5)"
    by (cases "writeEntry_header (traced T) ent ew") (auto simp: writeEntry_def split: option.splits)
  define pre where "pre = (bIO_Available (traced T) (io ew5) < length (Data ent))"
  define ew6 where "ew6 = (if pre then ew5\<lparr>io := snd (bIO_Flush (traced T) (io ew5))\<rparr> else ew5)"
  obtain e7 ew7 where w: "writeAll (traced T) (Data ent) ew6 = (e7, ew7)" by (metis prod.exhaust)
  define ew8 where "ew8 = (if flush then ew7\<lparr>io := snd (bIO_Flush (traced T) (io ew7))\<rparr> else ew7)"
  from assms h w have r: "fl = (flush \<or> pre)" "trace ew' = trace ew8"
    by (auto simp: writeEntry_def Let_def pre_def ew6_def ew8_def Add_def trace_def
             split: prod.splits option.splits if_splits)
  have t6: "trace ew6 = trace ew5 @ (if pre then [EvFlush] else [])"
    by (simp add: ew6_def trace_def split: prod.splits)
  from writeAll_extends[OF w] obtain evs7 where t7: "trace ew7 = trace ew6 @ evs7"
    by (auto simp: extends_def)
  have t8: "trace ew8 = trace ew7 @ (if flush then [EvFlush] else [])"
    by (simp add: ew8_def trace_def split: prod.splits)
  let ?evs = "(if pre then [EvFlush] else []) @ evs7 @ (if flush then [EvFlush] else [])"
  have "trace ew' = trace ew5 @ ?evs" using r t6 t7 t8 by simp
  moreover have "fl \<longrightarrow> 0 < flushes ?evs" using r by auto
  ultimately show ?thesis using h r(1) unfolding pre_def by blast
qed


lemma length_manyRecs [simp]: "length (manyRecs a n) = n"
  by (simp add: manyRecs_def)

lemma manyRecs_Suc: "manyRecs a (Suc n) = (of_nat (Suc a), entryA) # manyRecs (Suc a) n"
  unfolding manyRecs_def by (simp add: map_upt_Suc del: upt_Suc)

lemma manyRecs_first: "manyRecs 0 4096 = (1, entryA) # manyRecs (Suc 0) 4095"
  using manyRecs_Suc[of 0 4095] by simp

lemma fullOut_service:
  "serviceAcks (traced peerT) True (fullOut (idle\<lparr>pending := confirmFrame 1\<rparr>, [EvFlush])) =
     Some (None, fullOut (idle, [EvFlush, EvReadFull 12])
             \<lparr>buff := confirmFrame 1 @ replicate 26 0 @ PutUint64 4096,
              ecb := \<lparr>capacity = 4096, recs = manyRecs (Suc 0) 4095\<rparr>\<rparr>)"
proof -
  let ?X = "fullOut (idle\<lparr>pending := confirmFrame 1\<rparr>, [EvFlush])"
  let ?X1 = "?X\<lparr>io := (idle, [EvFlush, EvReadFull 12]),
                 buff := confirmFrame 1 @ drop ACK_SIZE (buff ?X)\<rparr>"
  have c: "0 < Count (ecb ?X)" by (simp add: fullOut_def Count_def)
  have r: "bAckReader_ReadFull (traced peerT) (io ?X) ACK_SIZE
             = (Inr (confirmFrame 1), (idle, [EvFlush, EvReadFull 12]))"
    by (simp add: fullOut_def idle_def ACK_SIZE_def)
  have l: "ACK_SIZE \<le> length (buff ?X)" by (simp add: fullOut_def ACK_SIZE_def)
  have fr: "readAcks_frame (traced peerT) ?X = (Inr (Some 1), ?X1)"
    by (rule readAcks_frame_at0[OF r l])
  have cf: "snd (Confirm 1 (ecb ?X1)) = \<lparr>capacity = 4096, recs = manyRecs (Suc 0) 4095\<rparr>"
    by (simp add: Confirm_def fullOut_def manyRecs_first)
  let ?X2 = "?X1\<lparr>ecb := \<lparr>capacity = 4096, recs = manyRecs (Suc 0) 4095\<rparr>\<rparr>"
  have "readAcks (traced peerT) True ?X = readAcks (traced peerT) False ?X2"
    using readAcks_confirm_step[OF c _ fr, of True] cf by simp
  also have "\<dots> = Some (None, ?X2)"
    by (rule readAcks_dry) (simp_all add: idle_def ACK_SIZE_def)
  finally have ra: "readAcks (traced peerT) True ?X = Some (None, ?X2)" .
  have nf: "\<not> Full (ecb ?X2)" by (simp add: Full_def Free_def Count_def)
  have h: "bIO_Buffered (traced peerT) (io ?X) = 0" by (simp add: fullOut_def idle_def)
  have "serviceAcks (traced peerT) True ?X = Some (None, ?X2)"
    using ra nf h by (simp add: serviceAcks_def)
  moreover have "?X2 = fullOut (idle, [EvFlush, EvReadFull 12])
             \<lparr>buff := confirmFrame 1 @ replicate 26 0 @ PutUint64 4096,
              ecb := \<lparr>capacity = 4096, recs = manyRecs (Suc 0) 4095\<rparr>\<rparr>"
    by (simp add: fullOut_def ACK_SIZE_def)
  ultimately show ?thesis by simp
qed

lemma fullOut_header:
  "writeEntry_header (traced peerT) entryA (fullOut (idle\<lparr>pending := confirmFrame 1\<rparr>, [])) =
     Some (None, fullOut (idle, [EvFlush, EvReadFull 12,
               EvWrite (PutUint32 NEW_ENTRY_MAGIC @ replicate 34 0 @ PutUint64 4097) 46])
             \<lparr>buff := PutUint32 NEW_ENTRY_MAGIC @ replicate 34 0 @ PutUint64 4097,
              ecb := \<lparr>capacity = 4096, recs = manyRecs (Suc 0) 4095\<rparr>\<rparr>)"
proof -
  let ?X0 = "fullOut (idle\<lparr>pending := confirmFrame 1\<rparr>, [])"
  let ?X1 = "fullOut (idle, [EvFlush, EvReadFull 12])
             \<lparr>buff := confirmFrame 1 @ replicate 26 0 @ PutUint64 4096,
              ecb := \<lparr>capacity = 4096, recs = manyRecs (Suc 0) 4095\<rparr>\<rparr>"
  have F: "Full (ecb ?X0)" by (simp add: fullOut_def Full_def Free_def Count_def)
  have fl: "bIO_Flush (traced peerT) (io ?X0)
              = (None, (idle\<lparr>pending := confirmFrame 1\<rparr>, [EvFlush]))"
    by (simp add: fullOut_def idle_def)
  have u: "?X0\<lparr>io := (idle\<lparr>pending := confirmFrame 1\<rparr>, [EvFlush])\<rparr>
           = fullOut (idle\<lparr>pending := confirmFrame 1\<rparr>, [EvFlush])"
    by (simp add: fullOut_def)
  have A: "(if Full (ecb ?X0) then
              (case bIO_Flush (traced peerT) (io ?X0) of
                 (Some err, io1) \<Rightarrow> Some (Some err, ?X0\<lparr>io := io1\<rparr>)
               | (None, io1) \<Rightarrow> serviceAcks (traced peerT) True (?X0\<lparr>io := io1\<rparr>))
            else Some (None, ?X0)) = Some (None, ?X1)"
    by (simp only: F if_True fl prod.case option.case u fullOut_service)
  have "writeEntry_header (traced peerT) entryA ?X0 =
          (let ew2 = ?X1\<lparr>buff := blit (buff ?X1) 0 (PutUint32 NEW_ENTRY_MAGIC)\<rparr>
           in (case EncodeHeader entryA of
                Inl err \<Rightarrow> Some (Some err, ew2)
              | Inr hdr \<Rightarrow>
                  let ew3 = ew2\<lparr>buff := blit (buff ew2) 4 (take ENTRY_HEADER_SIZE hdr)\<rparr>;
                      ew4 = ew3\<lparr>buff := blit (buff ew3) (ENTRY_HEADER_SIZE + 4)
                                               (PutUint64 (id_ew ew3))\<rparr>
                  in Some (writeAll (traced peerT) (buff ew4) ew4)))"
    unfolding writeEntry_header_def by (simp only: A option.case prod.case)
  also have "\<dots> = Some (None, fullOut (idle, [EvFlush, EvReadFull 12,
               EvWrite (PutUint32 NEW_ENTRY_MAGIC @ replicate 34 0 @ PutUint64 4097) 46])
             \<lparr>buff := PutUint32 NEW_ENTRY_MAGIC @ replicate 34 0 @ PutUint64 4097,
              ecb := \<lparr>capacity = 4096, recs = manyRecs (Suc 0) 4095\<rparr>\<rparr>)"
    by (simp add: fullOut_def entryA_def idle_def blit_eq ENTRY_HEADER_SIZE_def
         writeAll_traced_peer Let_def confirmFrame_def)
  finally show ?thesis .
qed

lemma fullOut_writeEntry:
  "\<exists>w. writeEntry (traced peerT) entryA False (fullOut (idle\<lparr>pending := confirmFrame 1\<rparr>, []))
          = Some ((False, None), w) \<and>
        trace w = [EvFlush, EvReadFull 12,
                   EvWrite (PutUint32 NEW_ENTRY_MAGIC @ replicate 34 0 @ PutUint64 4097) 46,
                   EvWrite [0x61] 1]"
  unfolding writeEntry_def fullOut_header
  by (simp add: fullOut_def entryA_def idle_def writeAll_traced_peer Full_def Free_def
      Count_def Add_def Let_def trace_def)

lemma writeEntry_small_space:
  "\<exists>w. writeEntry (traced peerT) entryA False (fresh (idle\<lparr>avail := 0\<rparr>, []))
          = Some ((True, None), w)"
  by (simp add: writeEntry_def writeEntry_header_def fresh_def idle_def entryA_def
      writeAll_traced_peer Full_def Free_def Count_def Add_def Let_def)

subsection \<open>The full writer is reached by writing 4096 entries\<close>

lemma frame_blits:
  "length b = 46 \<Longrightarrow>
     blit (blit (blit b 0 (PutUint32 m)) 4 (replicate 34 0)) 38 (PutUint64 i)
       = PutUint32 m @ replicate 34 0 @ PutUint64 i"
  by (simp add: blit_eq)

lemma manyRecs_snoc: "manyRecs 0 n @ [(of_nat (Suc n), entryA)] = manyRecs 0 (Suc n)"
  by (simp add: manyRecs_def)

lemma outN_fields [simp]:
  "io (outN n c) = c" "ecb (outN n c) = \<lparr>capacity = 4096, recs = manyRecs 0 n\<rparr>"
  "id_ew (outN n c) = of_nat (Suc n)" "length (buff (outN n c)) = 46"
  by (simp_all add: outN_def)

lemma writeEntry_outN:
  assumes "n < 4096"
  shows "writeEntry peerT entryA False (outN n idle) = Some ((False, None), outN (Suc n) idle)"
proof -
  have i: "accepts idle = []" "avail idle = 4194304" by (simp_all add: idle_def)
  have nf: "\<not> Full \<lparr>capacity = 4096, recs = manyRecs 0 n\<rparr>"
    using assms by (simp add: Full_def Free_def Count_def)
  let ?w5 = "outN n idle\<lparr>buff := PutUint32 NEW_ENTRY_MAGIC @ replicate 34 0
                                              @ PutUint64 (of_nat (Suc n))\<rparr>"
  have h: "writeEntry_header peerT entryA (outN n idle) = Some (None, ?w5)"
    using nf
    by (simp add: writeEntry_header_def entryA_def ENTRY_HEADER_SIZE_def frame_blits
        writeAll_peer i Let_def del: of_nat_Suc)
  have ad: "Add (of_nat (Suc n), entryA) \<lparr>capacity = 4096, recs = manyRecs 0 n\<rparr>
              = (None, \<lparr>capacity = 4096, recs = manyRecs 0 (Suc n)\<rparr>)"
    using nf manyRecs_snoc[of n] by (simp add: Add_def del: of_nat_Suc)
  have e: "?w5\<lparr>ecb := \<lparr>capacity = 4096, recs = manyRecs 0 (Suc n)\<rparr>,
                id_ew := of_nat (Suc n) + 1\<rparr> = outN (Suc n) idle"
    by (simp add: outN_def)
  have d: "length (Data entryA) = 1" by (simp add: entryA_def)
  show ?thesis
    unfolding writeEntry_def h
    by (simp add: Let_def i d writeAll_peer ad e del: of_nat_Suc)
qed

lemma WriteBatch_outN:
  "n + m \<le> 4096 \<Longrightarrow>
     WriteBatch peerT (replicate m entryA) (outN n idle) = Some (None, outN (n + m) idle)"
proof (induction m arbitrary: n)
  case 0
  then show ?case by simp
next
  case (Suc m)
  then have "n < 4096" and "Suc n + m \<le> 4096" by simp_all
  from writeEntry_outN[OF this(1)] Suc.IH[OF this(2)] show ?case by simp
qed

lemma fullOut_reached:
  "WriteBatch peerT (replicate 4096 entryA) (fresh idle) = Some (None, fullOut idle)"
proof -
  have "outN 0 idle = fresh idle" by (simp add: outN_def fresh_def manyRecs_def)
  moreover have "outN 4096 idle = fullOut idle" by (simp add: outN_def fullOut_def)
  ultimately show ?thesis using WriteBatch_outN[of 0 4096] by simp
qed

text \<open>
  Claim C5, as amended. On a call of writeEntry that succeeds, the flag is true exactly
  when the caller asked for the sync flush or the payload was longer than the free space
  of the buffered writer after the header was written; and when the flag is true, a
  flush of the buffered writer did occur during the call. The flag says nothing of the
  flush forced by a full confirmation buffer, of a flush inside the ack service, or of a
  flush after a partial write.
\<close>

theorem writeEntry_flag:
  assumes "writeEntry (traced T) ent flush ew = Some ((fl, None), ew')"
  shows "(\<exists>ew5. writeEntry_header (traced T) ent ew = Some (None, ew5) \<and>
                fl = (flush \<or> bIO_Available (traced T) (io ew5) < length (Data ent))) \<and>
         (fl \<longrightarrow> (\<exists>evs. trace ew' = trace ew @ evs \<and> 0 < flushes evs))"
proof -
  from writeEntry_tail_trace[OF assms] obtain ew5 evs where
    h: "writeEntry_header (traced T) ent ew = Some (None, ew5)"
    and f: "fl = (flush \<or> bIO_Available (traced T) (io ew5) < length (Data ent))"
    and t: "trace ew' = trace ew5 @ evs" and p: "fl \<longrightarrow> 0 < flushes evs" by blast
  from writeEntry_header_extends[OF h] obtain evs5 where "trace ew5 = trace ew @ evs5"
    by (auto simp: extends_def)
  with t p have "fl \<longrightarrow> (\<exists>evs. trace ew' = trace ew @ evs \<and> 0 < flushes evs)"
    by (intro impI exI[of _ "evs5 @ evs"]) simp
  with h f show ?thesis by blast
qed

theorem writeEntry_flag_witness:
  "\<exists>w. writeEntry (traced peerT) entryA False (fresh (idle\<lparr>avail := 0\<rparr>, []))
          = Some ((True, None), w) \<and>
        (\<exists>ew5. writeEntry_header (traced peerT) entryA (fresh (idle\<lparr>avail := 0\<rparr>, []))
                   = Some (None, ew5) \<and>
               True = (False \<or> bIO_Available (traced peerT) (io ew5) < length (Data entryA))) \<and>
        (\<exists>evs. trace w = trace (fresh (idle\<lparr>avail := 0\<rparr>, [])) @ evs \<and> 0 < flushes evs)"
proof -
  obtain w where h: "writeEntry (traced peerT) entryA False (fresh (idle\<lparr>avail := 0\<rparr>, []))
             = Some ((True, None), w)" using writeEntry_small_space by blast
  from writeEntry_flag[OF h] h show ?thesis by blast
qed

text \<open>
  The claim as stated fails. The confirmation buffer is full (4096 entries written, none
  confirmed, the state \<open>fullOut_reached\<close> arrives at) and the peer has sent the
  Confirm frame of entry 1. writeEntry without sync flush flushes the buffered writer
  first, serves the ack, writes header and payload, succeeds, and returns the flag
  false: a flush occurred during the call and the flag does not say so.
\<close>

theorem writeEntry_flag_counterexample:
  "map_option fst
     (writeEntry (traced peerT) entryA False (fullOut (idle\<lparr>pending := confirmFrame 1\<rparr>, [])))
     = Some (False, None) \<and>
   map_option (flushes \<circ> trace \<circ> snd)
     (writeEntry (traced peerT) entryA False (fullOut (idle\<lparr>pending := confirmFrame 1\<rparr>, [])))
     = Some 1"
  using fullOut_writeEntry by auto

subsection \<open>WriteBatch\<close>

lemma WriteBatch_succeeds:
  "WriteBatch T ents ew = Some (None, w) \<Longrightarrow>
     id_ew w = id_ew ew + of_nat (length ents) \<and>
     (\<exists>k. recs (ecb w) = drop k (recs (ecb ew) @
                                  map (\<lambda>j. (id_ew ew + of_nat j, ents ! j)) [0..<length ents]))"
proof (induction ents arbitrary: ew)
  case Nil
  then have "w = ew" by simp
  then show ?case by (intro conjI exI[of _ 0]) simp_all
next
  case (Cons ent ents)
  from Cons.prems obtain fl ew1 where w1: "writeEntry T ent False ew = Some ((fl, None), ew1)"
    and r: "WriteBatch T ents ew1 = Some (None, w)"
    by (cases "writeEntry T ent False ew") (auto split: prod.splits option.splits)
  from writeEntry_succeeds[OF w1] obtain k1 where
    i1: "id_ew ew1 = id_ew ew + 1" and
    k1: "recs (ecb ew1) = drop k1 (recs (ecb ew)) @ [(id_ew ew, ent)]" by blast
  from Cons.IH[OF r] obtain k where
    i: "id_ew w = id_ew ew1 + of_nat (length ents)" and
    k: "recs (ecb w) = drop k (recs (ecb ew1) @
          map (\<lambda>j. (id_ew ew1 + of_nat j, ents ! j)) [0..<length ents])" by blast
  let ?old = "recs (ecb ew)"
  let ?new = "map (\<lambda>j. (id_ew ew + of_nat j, (ent # ents) ! j)) [0..<length (ent # ents)]"
  have n: "?new = (id_ew ew, ent) # map (\<lambda>j. (id_ew ew1 + of_nat j, ents ! j)) [0..<length ents]"
    by (simp add: map_upt_Suc i1 add.assoc del: upt_Suc)
  have "drop k1 ?old = drop (min k1 (length ?old)) ?old" by (simp add: min_def)
  then have "recs (ecb ew1) @ map (\<lambda>j. (id_ew ew1 + of_nat j, ents ! j)) [0..<length ents]
          = drop (min k1 (length ?old)) (?old @ ?new)"
    using k1 n by simp
  with k have "recs (ecb w) = drop (k + min k1 (length ?old)) (?old @ ?new)"
    by (simp only: drop_drop)
  with i i1 show ?case by (auto simp: add.assoc)
qed

lemma writeAll_noflush:
  assumes I: "I (fst (io ew))"
    and H: "\<And>s bs. I s \<Longrightarrow> I (snd (bIO_Write T s bs)) \<and>
              (snd (fst (bIO_Write T s bs)) = None \<longrightarrow> fst (fst (bIO_Write T s bs)) = length bs)"
    and w: "writeAll (traced T) b ew = (e, ew')"
  shows "(\<exists>evs. trace ew' = trace ew @ evs \<and> flushes evs = 0) \<and> I (fst (io ew')) \<and>
         only_io ew ew'"
proof (cases "b = []")
  case True
  with w have "ew' = ew" by (simp add: writeAll_def writeAll_loop.simps)
  with I show ?thesis by (simp add: only_io_def)
next
  case False
  obtain n err s1 where wr: "bIO_Write T (fst (io ew)) b = ((n, err), s1)"
    by (metis prod.exhaust)
  from H[OF I, of b] wr have I1: "I s1" and n: "err = None \<longrightarrow> n = length b" by simp_all
  from w wr False n have "ew' = ew\<lparr>io := (s1, snd (io ew) @ [EvWrite b n])\<rparr>"
    by (cases err) (auto simp: writeAll_def writeAll_loop.simps)
  then have "trace ew' = trace ew @ [EvWrite b n]" "fst (io ew') = s1" "only_io ew ew'"
    by (simp_all add: trace_def only_io_def)
  with I1 show ?thesis by (intro conjI exI[of _ "[EvWrite b n]"]) simp_all
qed

lemma frame_magic:
  "length b = READ_ENTRY_HEADER_SIZE \<Longrightarrow>
     Uint32 (blit (blit (blit b 0 (PutUint32 m)) 4 (take ENTRY_HEADER_SIZE hdr))
                  (ENTRY_HEADER_SIZE + 4) (PutUint64 i)) = m"
  by (simp add: blit_eq READ_ENTRY_HEADER_SIZE_def ENTRY_HEADER_SIZE_def)

lemma frame_whole:
  "length b = READ_ENTRY_HEADER_SIZE \<Longrightarrow> length hdr = ENTRY_HEADER_SIZE \<Longrightarrow>
     blit (blit (blit b 0 (PutUint32 m)) 4 (take ENTRY_HEADER_SIZE hdr))
          (ENTRY_HEADER_SIZE + 4) (PutUint64 i) = PutUint32 m @ hdr @ PutUint64 i"
  by (simp add: blit_eq READ_ENTRY_HEADER_SIZE_def ENTRY_HEADER_SIZE_def)

lemma writeAll_takes_all:
  assumes H: "takes_all T" and w: "writeAll (traced T) b ew = (e, ew')"
  shows "\<exists>evs. trace ew' = trace ew @ evs \<and> flushes evs = 0"
proof -
  have "(\<exists>evs. trace ew' = trace ew @ evs \<and> flushes evs = 0) \<and> True \<and> only_io ew ew'"
    by (rule writeAll_noflush[where I = "\<lambda>s. True", OF _ _ w]) (use H in \<open>auto simp: takes_all_def\<close>)
  then show ?thesis by simp
qed

lemma writeAll_written:
  "writeAll (traced T) b ew = (None, ew') \<Longrightarrow>
     \<exists>evs. trace ew' = trace ew @ evs \<and> concat (map accepted evs) = b \<and>
           (takes_all T \<longrightarrow> flushes evs = 0)"
proof -
  assume w: "writeAll (traced T) b ew = (None, ew')"
  from writeAll_loop_written[of T b 0 ew ew'] w obtain evs where
    e: "trace ew' = trace ew @ evs" "concat (map accepted evs) = b"
    by (auto simp: writeAll_def)
  have "takes_all T \<longrightarrow> flushes evs = 0"
  proof
    assume "takes_all T"
    from writeAll_takes_all[OF this w] e(1) show "flushes evs = 0" by auto
  qed
  with e show ?thesis by blast
qed


lemma writeEntry_header_room:
  assumes nf: "\<not> Full (ecb ew)"
    and h: "writeEntry_header (traced T) ent ew = Some (e, ew5)"
  shows "\<exists>evs. trace ew5 = trace ew @ evs \<and> ecb ew5 = ecb ew \<and>
           (takes_all T \<longrightarrow> flushes evs = 0) \<and>
           (e = None \<longrightarrow> concat (map accepted evs) = buff ew5)"
proof (cases "EncodeHeader ent")
  case (Inl err)
  with h nf have "ew5 = ew\<lparr>buff := blit (buff ew) 0 (PutUint32 NEW_ENTRY_MAGIC)\<rparr>" "e = Some err"
    by (auto simp: writeEntry_header_def Let_def)
  then show ?thesis by (intro exI[of _ "[]"]) (simp add: trace_def)
next
  case (Inr hdr)
  define ew4 where "ew4 = ew\<lparr>buff := blit (blit (blit (buff ew) 0 (PutUint32 NEW_ENTRY_MAGIC)) 4
               (take ENTRY_HEADER_SIZE hdr)) (ENTRY_HEADER_SIZE + 4) (PutUint64 (id_ew ew))\<rparr>"
  from h nf Inr have wa: "writeAll (traced T) (buff ew4) ew4 = (e, ew5)"
    by (auto simp: writeEntry_header_def Let_def ew4_def)
  have t4: "trace ew4 = trace ew" "ecb ew4 = ecb ew" by (simp_all add: ew4_def trace_def)
  from writeAll_only_io[OF wa] have o: "ecb ew5 = ecb ew4" "buff ew5 = buff ew4"
    by (simp_all add: only_io_def)
  from writeAll_extends[OF wa] obtain evs where evs: "trace ew5 = trace ew4 @ evs"
    by (auto simp: extends_def)
  have f: "takes_all T \<longrightarrow> flushes evs = 0"
  proof
    assume "takes_all T"
    from writeAll_takes_all[OF this wa] evs show "flushes evs = 0" by auto
  qed
  have a: "e = None \<longrightarrow> concat (map accepted evs) = buff ew5"
  proof
    assume "e = None"
    with wa have "writeAll (traced T) (buff ew4) ew4 = (None, ew5)" by simp
    from writeAll_written[OF this] evs o show "concat (map accepted evs) = buff ew5" by auto
  qed
  from evs t4 o f a show ?thesis by (intro exI[of _ evs]) simp
qed

lemma writeEntry_header_frame:
  assumes h: "writeEntry_header (traced T) ent ew = Some (None, ew5)"
    and l: "length (buff ew) = READ_ENTRY_HEADER_SIZE"
  shows "\<exists>evs p hdr. trace ew5 = trace ew @ evs \<and> concat (map accepted evs) = p @ buff ew5 \<and>
           EncodeHeader ent = Inr hdr \<and> Uint32 (buff ew5) = NEW_ENTRY_MAGIC \<and>
           (length hdr = ENTRY_HEADER_SIZE \<longrightarrow>
              buff ew5 = PutUint32 NEW_ENTRY_MAGIC @ hdr @ PutUint64 (id_ew ew))"
proof -
  define r1 where "r1 = (if Full (ecb ew) then
              (case bIO_Flush (traced T) (io ew) of
                 (Some err, io1) \<Rightarrow> Some (Some err, ew\<lparr>io := io1\<rparr>)
               | (None, io1) \<Rightarrow> serviceAcks (traced T) True (ew\<lparr>io := io1\<rparr>))
            else Some (None, ew))"
  from h obtain ew1 where r: "r1 = Some (None, ew1)"
    by (cases r1) (auto simp: writeEntry_header_def r1_def split: option.splits)
  have k1: "keeps ew ew1 \<and> extends ew ew1"
  proof (cases "Full (ecb ew)")
    case False
    with r show ?thesis by (simp add: r1_def keeps_refl extends_refl)
  next
    case True
    obtain ef io1 where f: "bIO_Flush (traced T) (io ew) = (ef, io1)" by (metis prod.exhaust)
    with r True have s: "serviceAcks (traced T) True (ew\<lparr>io := io1\<rparr>) = Some (None, ew1)"
      by (cases ef) (auto simp: r1_def)
    have "extends ew (ew\<lparr>io := io1\<rparr>)" using extends_Flush[of ew T] f by simp
    from this serviceAcks_extends[OF s] have "extends ew ew1" by (rule extends_trans)
    moreover from keeps_io serviceAcks_keeps[OF s] have "keeps ew ew1" by (rule keeps_trans)
    ultimately show ?thesis by simp
  qed
  then have l1: "length (buff ew1) = READ_ENTRY_HEADER_SIZE" and i1: "id_ew ew1 = id_ew ew"
    using l by (simp_all add: keeps_def)
  from k1 obtain evs1 where t1: "trace ew1 = trace ew @ evs1" by (auto simp: extends_def)
  from h r obtain hdr where hd: "EncodeHeader ent = Inr hdr"
    by (cases "EncodeHeader ent") (auto simp: writeEntry_header_def r1_def[symmetric] Let_def)
  define ew4 where "ew4 = ew1\<lparr>buff := blit (blit (blit (buff ew1) 0 (PutUint32 NEW_ENTRY_MAGIC)) 4
               (take ENTRY_HEADER_SIZE hdr)) (ENTRY_HEADER_SIZE + 4) (PutUint64 (id_ew ew1))\<rparr>"
  from h r hd have w: "writeAll (traced T) (buff ew4) ew4 = (None, ew5)"
    by (simp add: writeEntry_header_def r1_def[symmetric] ew4_def Let_def)
  from writeAll_only_io[OF w] have b5: "buff ew5 = buff ew4" by (simp add: only_io_def)
  have t4: "trace ew4 = trace ew1" by (simp add: ew4_def trace_def)
  from writeAll_written[OF w] obtain evs4 where
    e4: "trace ew5 = trace ew4 @ evs4" "concat (map accepted evs4) = buff ew4" by blast
  have m: "Uint32 (buff ew4) = NEW_ENTRY_MAGIC"
    using frame_magic[OF l1] by (simp add: ew4_def)
  have fw: "length hdr = ENTRY_HEADER_SIZE \<longrightarrow>
              buff ew4 = PutUint32 NEW_ENTRY_MAGIC @ hdr @ PutUint64 (id_ew ew)"
    using frame_whole[OF l1] i1 by (simp add: ew4_def)
  have "trace ew5 = trace ew @ (evs1 @ evs4)" using e4 t4 t1 by simp
  moreover have "concat (map accepted (evs1 @ evs4)) = concat (map accepted evs1) @ buff ew5"
    using e4 b5 by simp
  ultimately show ?thesis using hd m fw b5 by metis
qed

lemma writeEntry_written:
  assumes w: "writeEntry (traced T) ent False ew = Some ((fl, None), ew')"
    and l: "length (buff ew) = READ_ENTRY_HEADER_SIZE"
  shows "entry_written T (id_ew ew) ent ew ew'"
proof -
  from w obtain ew5 where h: "writeEntry_header (traced T) ent ew = Some (None, ew5)"
    by (cases "writeEntry_header (traced T) ent ew") (auto simp: writeEntry_def split: option.splits)
  define pre where "pre = (bIO_Available T (fst (io ew5)) < length (Data ent))"
  define ew6 where "ew6 = (if pre then ew5\<lparr>io := snd (bIO_Flush (traced T) (io ew5))\<rparr> else ew5)"
  obtain e7 ew7 where w7: "writeAll (traced T) (Data ent) ew6 = (e7, ew7)" by (metis prod.exhaust)
  from w h w7 have e7: "e7 = None"
    and e: "ew' = ew7\<lparr>ecb := (ecb ew7)\<lparr>recs := recs (ecb ew7) @ [(id_ew ew7, ent)]\<rparr>,
                      id_ew := id_ew ew7 + 1\<rparr>"
    and f: "fl = pre"
    by (auto simp: writeEntry_def Let_def pre_def ew6_def Add_def
             split: prod.splits option.splits if_splits)
  have o6: "only_io ew5 ew6" by (simp add: ew6_def only_io_def)
  have o7: "only_io ew6 ew7" by (rule writeAll_only_io[OF w7])
  from o6 o7 have o: "ecb ew7 = ecb ew5" "buff ew7 = buff ew5" "id_ew ew7 = id_ew ew5"
    by (simp_all add: only_io_def)
  from writeEntry_header_keeps[OF h] have i5: "id_ew ew5 = id_ew ew" by (simp add: keeps_def)
  have t6: "trace ew6 = trace ew5 @ (if pre then [EvFlush] else [])"
    by (simp add: ew6_def trace_def split: prod.splits)
  from writeAll_written[OF w7[unfolded e7]] obtain evs7 where
    t7: "trace ew7 = trace ew6 @ evs7" "concat (map accepted evs7) = Data ent"
        "takes_all T \<longrightarrow> flushes evs7 = 0" by blast
  have t': "trace ew' = trace ew7" "buff ew' = buff ew5"
    "recs (ecb ew') = recs (ecb ew5) @ [(id_ew ew, ent)]"
    using e o i5 by (simp_all add: trace_def)
  from writeEntry_header_frame[OF h l] obtain evs5 p hdr where
    t5: "trace ew5 = trace ew @ evs5" "concat (map accepted evs5) = p @ buff ew5"
        "EncodeHeader ent = Inr hdr" "Uint32 (buff ew5) = NEW_ENTRY_MAGIC"
        "length hdr = ENTRY_HEADER_SIZE \<longrightarrow>
              buff ew5 = PutUint32 NEW_ENTRY_MAGIC @ hdr @ PutUint64 (id_ew ew)" by blast
  let ?evs = "evs5 @ (if pre then [EvFlush] else []) @ evs7"
  have tr: "trace ew' = trace ew @ ?evs" using t' t7 t6 t5 by simp
  have ac: "concat (map accepted ?evs) = p @ buff ew' @ Data ent"
    using t5 t7 t' by simp
  from writeEntry_succeeds[OF w] l obtain k where
    s: "id_ew ew' = id_ew ew + 1" "sentID ew' = id_ew ew"
       "recs (ecb ew') = drop k (recs (ecb ew)) @ [(id_ew ew, ent)]" by auto
  have room: "\<not> Full (ecb ew) \<longrightarrow>
           p = [] \<and> recs (ecb ew') = recs (ecb ew) @ [(id_ew ew, ent)] \<and>
           (takes_all T \<longrightarrow> flushes ?evs = (if fl then 1 else 0))"
  proof
    assume nf: "\<not> Full (ecb ew)"
    from writeEntry_header_room[OF nf h] obtain evs where
      r: "trace ew5 = trace ew @ evs" "ecb ew5 = ecb ew" "takes_all T \<longrightarrow> flushes evs = 0"
         "concat (map accepted evs) = buff ew5" by auto
    from r(1) t5(1) have "evs = evs5" by simp
    with r t5(2) have "p = []" "takes_all T \<longrightarrow> flushes evs5 = 0" by simp_all
    with r(2) t' t7(3) f
    show "p = [] \<and> recs (ecb ew') = recs (ecb ew) @ [(id_ew ew, ent)] \<and>
           (takes_all T \<longrightarrow> flushes ?evs = (if fl then 1 else 0))" by simp
  qed
  have k: "\<exists>k. recs (ecb ew') = drop k (recs (ecb ew)) @ [(id_ew ew, ent)]" using s(3) by blast
  show ?thesis unfolding entry_written_def
    apply (rule exI[of _ fl], rule exI[of _ ew5], rule exI[of _ hdr], rule exI[of _ ?evs],
           rule exI[of _ p])
    using w h f s(1,2) t5(3,4,5) t'(2) tr ac k room by (simp add: pre_def)
qed

lemma writeEntry_failed:
  assumes w: "writeEntry (traced T) ent False ew = Some ((b, Some err), ew')"
  shows "entry_failed T err ent ew ew'"
proof -
  from writeEntry_fails[OF w] have k: "keeps ew ew'" and b: "b = False" by simp_all
  from w obtain e5 ew5 where h: "writeEntry_header (traced T) ent ew = Some (e5, ew5)"
    by (cases "writeEntry_header (traced T) ent ew") (auto simp: writeEntry_def)
  define pre where "pre = (bIO_Available T (fst (io ew5)) < length (Data ent))"
  define ew6 where "ew6 = (if pre then ew5\<lparr>io := snd (bIO_Flush (traced T) (io ew5))\<rparr> else ew5)"
  obtain e7 ew7 where w7: "writeAll (traced T) (Data ent) ew6 = (e7, ew7)" by (metis prod.exhaust)
  have t6: "trace ew6 = trace ew5 @ (if pre then [EvFlush] else [])" "ecb ew6 = ecb ew5"
    by (simp_all add: ew6_def trace_def split: prod.splits)
  from writeAll_extends[OF w7] obtain evs7 where t7: "trace ew7 = trace ew6 @ evs7"
    by (auto simp: extends_def)
  from writeAll_only_io[OF w7] have o7: "ecb ew7 = ecb ew6" by (simp add: only_io_def)
  from writeEntry_header_extends[OF h] obtain evs5 where t5: "trace ew5 = trace ew @ evs5"
    by (auto simp: extends_def)
  from w h w7 have c: "(e5 \<noteq> None \<and> ew' = ew5) \<or> (e5 = None \<and> ew' = ew6) \<or>
      (e5 = None \<and> ew' = ew7) \<or> (e5 = None \<and> ew' = ew7\<lparr>ecb := ecb ew7\<rparr>)"
    by (auto simp: writeEntry_def Let_def pre_def ew6_def Add_def
             split: prod.splits option.splits if_splits)
  then obtain evs where evs: "trace ew' = trace ew @ evs"
    and ev: "evs = evs5 \<or> evs = evs5 @ (if pre then [EvFlush] else []) \<or>
             evs = evs5 @ (if pre then [EvFlush] else []) @ evs7"
    and ec: "ecb ew' = ecb ew5"
    using t5 t6 t7 o7 by (auto simp: trace_def)
  have room: "\<not> Full (ecb ew) \<longrightarrow>
           recs (ecb ew') = recs (ecb ew) \<and> (takes_all T \<longrightarrow> flushes evs \<le> 1)"
  proof
    assume nf: "\<not> Full (ecb ew)"
    from writeEntry_header_room[OF nf h] t5 have
      r: "ecb ew5 = ecb ew" "takes_all T \<longrightarrow> flushes evs5 = 0" by auto
    have "takes_all T \<longrightarrow> flushes evs7 = 0"
    proof
      assume "takes_all T"
      from writeAll_takes_all[OF this w7] t7 show "flushes evs7 = 0" by auto
    qed
    with r ev ec show "recs (ecb ew') = recs (ecb ew) \<and> (takes_all T \<longrightarrow> flushes evs \<le> 1)"
      by auto
  qed
  from k have "id_ew ew' = id_ew ew" "\<exists>k. recs (ecb ew') = drop k (recs (ecb ew))"
    by (auto simp: keeps_def)
  with w b evs room show ?thesis unfolding entry_failed_def by blast
qed


lemma WriteBatch_chain:
  "WriteBatch (traced T) ents ew = Some (Some err, ew') \<Longrightarrow>
   length (buff ew) = READ_ENTRY_HEADER_SIZE \<Longrightarrow>
     \<exists>i ws. i < length ents \<and> length ws = Suc i \<and> ws ! 0 = ew \<and>
       (\<forall>j<i. entry_written T (id_ew ew + of_nat j) (ents ! j) (ws ! j) (ws ! Suc j)) \<and>
       entry_failed T err (ents ! i) (ws ! i) ew' \<and>
       id_ew ew' = id_ew ew + of_nat i \<and>
       (\<exists>k. recs (ecb ew') = drop k (recs (ecb ew) @
                 map (\<lambda>j. (id_ew ew + of_nat j, ents ! j)) [0..<i])) \<and>
       (length ents \<le> Free (ecb ew) \<longrightarrow>
          (\<forall>j\<le>i. \<not> Full (ecb (ws ! j))) \<and>
          recs (ecb ew') = recs (ecb ew) @ map (\<lambda>j. (id_ew ew + of_nat j, ents ! j)) [0..<i])"
proof (induction ents arbitrary: ew)
  case Nil
  then show ?case by simp
next
  case (Cons ent ents)
  from Cons.prems(1) obtain fl e1 ew1 where
    w1: "writeEntry (traced T) ent False ew = Some ((fl, e1), ew1)"
    by (cases "writeEntry (traced T) ent False ew") auto
  have full: "length (ent # ents) \<le> Free (ecb ew) \<longrightarrow> \<not> Full (ecb ew)"
    by (auto simp: Full_def)
  show ?case
  proof (cases e1)
    case (Some x)
    with Cons.prems(1) w1 have x: "x = err" "ew1 = ew'" by simp_all
    from writeEntry_failed[OF w1[unfolded Some]] x
    have f: "entry_failed T err ent ew ew'" by simp
    then obtain k where k: "recs (ecb ew') = drop k (recs (ecb ew))"
      and i: "id_ew ew' = id_ew ew"
      and r: "\<not> Full (ecb ew) \<longrightarrow> recs (ecb ew') = recs (ecb ew)"
      by (auto simp: entry_failed_def)
    have "(0::nat) < length (ent # ents) \<and> length [ew] = Suc 0 \<and> [ew] ! 0 = ew \<and>
       (\<forall>j<0. entry_written T (id_ew ew + of_nat j) ((ent # ents) ! j) ([ew] ! j) ([ew] ! Suc j)) \<and>
       entry_failed T err ((ent # ents) ! 0) ([ew] ! 0) ew' \<and>
       id_ew ew' = id_ew ew + of_nat 0 \<and>
       (\<exists>k. recs (ecb ew') = drop k (recs (ecb ew) @
                 map (\<lambda>j. (id_ew ew + of_nat j, (ent # ents) ! j)) [0..<0])) \<and>
       (length (ent # ents) \<le> Free (ecb ew) \<longrightarrow>
          (\<forall>j\<le>0. \<not> Full (ecb ([ew] ! j))) \<and>
          recs (ecb ew') = recs (ecb ew) @
            map (\<lambda>j. (id_ew ew + of_nat j, (ent # ents) ! j)) [0..<0])"
      using f k i r full by auto
    then show ?thesis by blast
  next
    case None
    with Cons.prems(1) w1 have r: "WriteBatch (traced T) ents ew1 = Some (Some err, ew')" by simp
    from writeEntry_written[OF w1[unfolded None] Cons.prems(2)]
    have s0: "entry_written T (id_ew ew) ent ew ew1" .
    from writeEntry_succeeds[OF w1[unfolded None]] Cons.prems(2) obtain k1 where
      i1: "id_ew ew1 = id_ew ew + 1" and l1: "length (buff ew1) = READ_ENTRY_HEADER_SIZE"
      and c1: "capacity (ecb ew1) = capacity (ecb ew)"
      and k1: "recs (ecb ew1) = drop k1 (recs (ecb ew)) @ [(id_ew ew, ent)]" by auto
    from s0 have x1: "\<not> Full (ecb ew) \<longrightarrow> recs (ecb ew1) = recs (ecb ew) @ [(id_ew ew, ent)]"
      by (auto simp: entry_written_def)
    from Cons.IH[OF r l1] obtain i ws k where
      a: "i < length ents" "length ws = Suc i" "ws ! 0 = ew1"
      and st: "\<forall>j<i. entry_written T (id_ew ew1 + of_nat j) (ents ! j) (ws ! j) (ws ! Suc j)"
      and fa: "entry_failed T err (ents ! i) (ws ! i) ew'"
      and ii: "id_ew ew' = id_ew ew1 + of_nat i"
      and kk: "recs (ecb ew') = drop k (recs (ecb ew1) @
                 map (\<lambda>j. (id_ew ew1 + of_nat j, ents ! j)) [0..<i])"
      and ro: "length ents \<le> Free (ecb ew1) \<longrightarrow>
          (\<forall>j\<le>i. \<not> Full (ecb (ws ! j))) \<and>
          recs (ecb ew') = recs (ecb ew1) @ map (\<lambda>j. (id_ew ew1 + of_nat j, ents ! j)) [0..<i]"
      by blast
    let ?old = "recs (ecb ew)"
    let ?new = "map (\<lambda>j. (id_ew ew + of_nat j, (ent # ents) ! j)) [0..<Suc i]"
    have n: "?new = (id_ew ew, ent) # map (\<lambda>j. (id_ew ew1 + of_nat j, ents ! j)) [0..<i]"
      by (simp add: map_upt_Suc i1 add.assoc del: upt_Suc)
    have c2: "Suc i < length (ent # ents)" "length (ew # ws) = Suc (Suc i)" "(ew # ws) ! 0 = ew"
      using a by simp_all
    have c3: "\<forall>j<Suc i. entry_written T (id_ew ew + of_nat j) ((ent # ents) ! j)
                ((ew # ws) ! j) ((ew # ws) ! Suc j)"
    proof (intro allI impI)
      fix j assume j: "j < Suc i"
      show "entry_written T (id_ew ew + of_nat j) ((ent # ents) ! j)
                ((ew # ws) ! j) ((ew # ws) ! Suc j)"
      proof (cases j)
        case 0
        with s0 a(3) show ?thesis by simp
      next
        case (Suc j')
        with j have "j' < i" by simp
        with st have "entry_written T (id_ew ew1 + of_nat j') (ents ! j') (ws ! j') (ws ! Suc j')"
          by blast
        moreover have "id_ew ew1 + of_nat j' = id_ew ew + of_nat (Suc j')"
          by (simp add: i1 add.assoc)
        ultimately show ?thesis using Suc by simp
      qed
    qed
    have c4: "entry_failed T err ((ent # ents) ! Suc i) ((ew # ws) ! Suc i) ew'"
      using fa by simp
    have c5: "id_ew ew' = id_ew ew + of_nat (Suc i)" using ii i1 by (simp add: add.assoc)
    have "drop k1 ?old = drop (min k1 (length ?old)) ?old" by (simp add: min_def)
    then have "recs (ecb ew1) @ map (\<lambda>j. (id_ew ew1 + of_nat j, ents ! j)) [0..<i]
          = drop (min k1 (length ?old)) (?old @ ?new)"
      using k1 n by simp
    with kk have "recs (ecb ew') = drop (k + min k1 (length ?old)) (?old @ ?new)"
      by (simp only: drop_drop)
    then have c6: "\<exists>k. recs (ecb ew') = drop k (?old @ ?new)" by blast
    have c7: "length (ent # ents) \<le> Free (ecb ew) \<longrightarrow>
          (\<forall>j\<le>Suc i. \<not> Full (ecb ((ew # ws) ! j))) \<and> recs (ecb ew') = ?old @ ?new"
    proof
      assume f: "length (ent # ents) \<le> Free (ecb ew)"
      with full have nf: "\<not> Full (ecb ew)" by simp
      with x1 have r1: "recs (ecb ew1) = ?old @ [(id_ew ew, ent)]" by simp
      with f c1 have "length ents \<le> Free (ecb ew1)" by (simp add: Free_def Count_def)
      with ro have q: "\<forall>j\<le>i. \<not> Full (ecb (ws ! j))"
        "recs (ecb ew') = recs (ecb ew1) @ map (\<lambda>j. (id_ew ew1 + of_nat j, ents ! j)) [0..<i]"
        by simp_all
      have "\<forall>j\<le>Suc i. \<not> Full (ecb ((ew # ws) ! j))"
      proof (intro allI impI)
        fix j assume "j \<le> Suc i"
        then show "\<not> Full (ecb ((ew # ws) ! j))" using nf q(1) by (cases j) simp_all
      qed
      moreover have "recs (ecb ew') = ?old @ ?new" using q(2) r1 n by simp
      ultimately show "(\<forall>j\<le>Suc i. \<not> Full (ecb ((ew # ws) ! j))) \<and> recs (ecb ew') = ?old @ ?new"
        by simp
    qed
    show ?thesis
      apply (rule exI[of _ "Suc i"], rule exI[of _ "ew # ws"])
      using c2 c3 c4 c5 c6 c7 by (intro conjI) assumption+
  qed
qed


lemma wireT_simps [simp]:
  "bIO_Write wireT s bs = ((length bs, None),
                      s\<lparr>room := (if length bs \<le> room s then room s - length bs
                                  else WRITE_BUFFER_SIZE)\<rparr>)"
  "bIO_Flush wireT s = (None, s\<lparr>room := WRITE_BUFFER_SIZE\<rparr>)"
  "bIO_Available wireT s = room s"
  "bIO_Buffered wireT s = WRITE_BUFFER_SIZE - room s"
  "bAckReader_ReadFull wireT s n = (if n \<le> length (inbox s)
                                    then (Inr (take n (inbox s)), s\<lparr>inbox := drop n (inbox s)\<rparr>)
                                    else (Inl ErrTimeout, s\<lparr>inbox := []\<rparr>))"
  "bAckReader_Buffered wireT s = length (inbox s)"
  "conn_SetReadDeadline wireT s d = (None, s)"
  "conn_Close wireT s = s"
  by (simp_all add: wireT_def)

lemma takes_all_wire: "takes_all wireT"
  by (simp add: takes_all_def)

lemma writeAll_traced_wire:
  "writeAll (traced wireT) b ew =
     (None, if b = [] then ew
            else ew\<lparr>io := ((fst (io ew))\<lparr>room := (if length b \<le> room (fst (io ew))
                                                    then room (fst (io ew)) - length b
                                                    else WRITE_BUFFER_SIZE)\<rparr>,
                           snd (io ew) @ [EvWrite b (length b)])\<rparr>)"
  unfolding writeAll_def by (subst writeAll_loop.simps) simp

lemma wire_header:
  "writeEntry_header (traced wireT) entryBig (fresh (quiet, [])) =
     Some (None, fresh (quiet\<lparr>room := 4194258\<rparr>,
                        [EvWrite (PutUint32 NEW_ENTRY_MAGIC @ replicate 34 1 @ PutUint64 1) 46])
                  \<lparr>buff := PutUint32 NEW_ENTRY_MAGIC @ replicate 34 1 @ PutUint64 1\<rparr>)"
  by (simp add: writeEntry_header_def fresh_def quiet_def entryBig_def writeAll_traced_wire
      Full_def Free_def Count_def Let_def blit_eq ENTRY_HEADER_SIZE_def WRITE_BUFFER_SIZE_def)

lemma wire_first:
  "writeEntry (traced wireT) entryBig False (fresh (quiet, [])) =
     Some ((True, None),
           fresh (quiet, [EvWrite (PutUint32 NEW_ENTRY_MAGIC @ replicate 34 1 @ PutUint64 1) 46,
                          EvFlush, EvWrite (replicate 4194305 2) 4194305])
             \<lparr>buff := PutUint32 NEW_ENTRY_MAGIC @ replicate 34 1 @ PutUint64 1,
              ecb := \<lparr>capacity = 4096, recs = [(1, entryBig)]\<rparr>, id_ew := 2\<rparr>)"
  unfolding writeEntry_def wire_header
  by (simp add: fresh_def quiet_def writeAll_traced_wire Full_def Free_def Count_def Add_def
      Let_def WRITE_BUFFER_SIZE_def entryBig_def)

lemma wire_batch:
  "\<exists>w'. WriteBatch (traced wireT) [entryBig, entryBad, entryA] (fresh (quiet, []))
           = Some (Some (ErrExternal 7), w') \<and> id_ew w' = 2 \<and>
         trace w' = [EvWrite (PutUint32 NEW_ENTRY_MAGIC @ replicate 34 1 @ PutUint64 1) 46,
                     EvFlush, EvWrite (replicate 4194305 2) 4194305] \<and>
         recs (ecb w') = [(1, entryBig)]"
  by (simp add: wire_first)
     (simp add: writeEntry_def writeEntry_header_def fresh_def entryBad_def Full_def Free_def
        Count_def Let_def trace_def)


text \<open>
  Claim C7, as amended. When WriteBatch fails, it fails on some entry \<open>i\<close>, after the
  calls of writeEntry (without sync flush) on the entries before it in turn: each of
  those was framed under the next send-id, its frame header and payload went to the
  buffered writer, and its record was added as the newest; the failing call returned
  the error, spent no send-id and added no record, and no later entry was tried. The
  records are the old ones followed by those of the entries before \<open>i\<close>, less the
  oldest that acks served in between have confirmed; when the confirmation buffer has
  room for the batch no ack is served and they are exactly these. WriteBatch asks for
  no sync flush, but flushes forced otherwise do occur: with room in the confirmation
  buffer and no partial Write, an entry written is flushed once if its payload is
  longer than the free space of the buffered writer after its header, and not at all
  otherwise.
\<close>

theorem WriteBatch_partial_progress:
  assumes "WriteBatch (traced T) ents ew = Some (Some err, ew')"
    and "length (buff ew) = READ_ENTRY_HEADER_SIZE"
  shows "\<exists>i ws. i < length ents \<and> length ws = Suc i \<and> ws ! 0 = ew \<and>
           (\<forall>j<i. entry_written T (id_ew ew + of_nat j) (ents ! j) (ws ! j) (ws ! Suc j)) \<and>
           entry_failed T err (ents ! i) (ws ! i) ew' \<and>
           id_ew ew' = id_ew ew + of_nat i \<and>
           (\<exists>k. recs (ecb ew') = drop k (recs (ecb ew) @
                     map (\<lambda>j. (id_ew ew + of_nat j, ents ! j)) [0..<i])) \<and>
           (length ents \<le> Free (ecb ew) \<longrightarrow>
              (\<forall>j\<le>i. \<not> Full (ecb (ws ! j))) \<and>
              recs (ecb ew') = recs (ecb ew) @
                                map (\<lambda>j. (id_ew ew + of_nat j, ents ! j)) [0..<i])"
  using assms by (rule WriteBatch_chain)

theorem WriteBatch_partial_progress_witness:
  "\<exists>w' w1 evs1.
     WriteBatch (traced wireT) [entryBig, entryBad, entryA] (fresh (quiet, []))
       = Some (Some (ErrExternal 7), w') \<and>
     length (buff (fresh (quiet, [] :: event list))) = READ_ENTRY_HEADER_SIZE \<and>
     length [entryBig, entryBad, entryA] \<le> Free (ecb (fresh (quiet, [] :: event list))) \<and>
     writeEntry (traced wireT) entryBig False (fresh (quiet, [])) = Some ((True, None), w1) \<and>
     buff w1 = PutUint32 NEW_ENTRY_MAGIC @ replicate 34 1 @ PutUint64 1 \<and>
     trace w1 = evs1 \<and> concat (map accepted evs1) = buff w1 @ Data entryBig \<and>
     flushes evs1 = 1 \<and> recs (ecb w1) = [(1, entryBig)] \<and>
     writeEntry (traced wireT) entryBad False w1 = Some ((False, Some (ErrExternal 7)), w') \<and>
     id_ew w' = 2 \<and> recs (ecb w') = [(1, entryBig)]"
proof -
  let ?ents = "[entryBig, entryBad, entryA]"
  let ?ew = "fresh (quiet, [] :: event list)"
  obtain w' where h: "WriteBatch (traced wireT) ?ents ?ew = Some (Some (ErrExternal 7), w')"
    and i2: "id_ew w' = 2" using wire_batch by blast
  have l: "length (buff ?ew) = READ_ENTRY_HEADER_SIZE"
    by (simp add: fresh_def READ_ENTRY_HEADER_SIZE_def ENTRY_HEADER_SIZE_def)
  have ro: "length ?ents \<le> Free (ecb ?ew)" by (simp add: fresh_def Free_def Count_def)
  have nf: "\<not> Full (ecb ?ew)" by (simp add: fresh_def Full_def Free_def Count_def)
  have f: "id_ew ?ew = 1" "recs (ecb ?ew) = []" "trace ?ew = []"
    by (simp_all add: fresh_def trace_def)
  from WriteBatch_partial_progress[OF h l] obtain i ws where
    a: "i < length ?ents" "ws ! 0 = ?ew"
    and st: "\<forall>j<i. entry_written wireT (id_ew ?ew + of_nat j) (?ents ! j) (ws ! j) (ws ! Suc j)"
    and fa: "entry_failed wireT (ErrExternal 7) (?ents ! i) (ws ! i) w'"
    and ii: "id_ew w' = id_ew ?ew + of_nat i"
    and rr: "length ?ents \<le> Free (ecb ?ew) \<longrightarrow>
              (\<forall>j\<le>i. \<not> Full (ecb (ws ! j))) \<and>
              recs (ecb w') = recs (ecb ?ew) @
                                map (\<lambda>j. (id_ew ?ew + of_nat j, ?ents ! j)) [0..<i]"
    by blast
  from a(1) have "i = 0 \<or> i = 1 \<or> i = 2" by auto
  with ii i2 f(1) have i: "i = 1" by auto
  from st i a(2) f(1) have "entry_written wireT 1 entryBig ?ew (ws ! 1)" by simp
  then obtain fl ew5 hdr evs p where
    e: "writeEntry (traced wireT) entryBig False ?ew = Some ((fl, None), ws ! 1)"
       "writeEntry_header (traced wireT) entryBig ?ew = Some (None, ew5)"
       "fl = (bIO_Available wireT (fst (io ew5)) < length (Data entryBig))"
       "EncodeHeader entryBig = Inr hdr"
       "length hdr = ENTRY_HEADER_SIZE \<longrightarrow>
           buff (ws ! 1) = PutUint32 NEW_ENTRY_MAGIC @ hdr @ PutUint64 1"
       "trace (ws ! 1) = trace ?ew @ evs"
       "concat (map accepted evs) = p @ buff (ws ! 1) @ Data entryBig"
       "\<not> Full (ecb ?ew) \<longrightarrow>
           p = [] \<and> recs (ecb (ws ! 1)) = recs (ecb ?ew) @ [(1, entryBig)] \<and>
           (takes_all wireT \<longrightarrow> flushes evs = (if fl then 1 else 0))"
    unfolding entry_written_def by blast
  from e(2) have "room (fst (io ew5)) = 4194258"
    unfolding wire_header by (auto simp: fresh_def quiet_def)
  with e(3) have fl: "fl = True" by (simp add: entryBig_def)
  from e(4) have hd: "hdr = replicate 34 1" by (simp add: entryBig_def)
  from e(5) hd have b1: "buff (ws ! 1) = PutUint32 NEW_ENTRY_MAGIC @ replicate 34 1 @ PutUint64 1"
    by (simp add: ENTRY_HEADER_SIZE_def)
  from e(8) nf takes_all_wire fl f(2) have
    p: "p = []" "recs (ecb (ws ! 1)) = [(1, entryBig)]" "flushes evs = 1" by simp_all
  from e(6,7) p(1) f(3) have t1: "trace (ws ! 1) = evs"
    "concat (map accepted evs) = buff (ws ! 1) @ Data entryBig" by simp_all
  from fa i have w2:
    "writeEntry (traced wireT) entryBad False (ws ! 1) = Some ((False, Some (ErrExternal 7)), w')"
    by (simp add: entry_failed_def)
  from rr ro i f have r': "recs (ecb w') = [(1, entryBig)]" by simp
  show ?thesis
    apply (rule exI[of _ w'], rule exI[of _ "ws ! 1"], rule exI[of _ evs])
    using h l ro e(1)[unfolded fl] b1 t1 p(2,3) w2 i2 r' by (intro conjI) assumption+
qed

text \<open>
  The claim as stated fails in its last part. On the writer NewEntryWriter builds, a
  batch whose first entry has a payload one byte longer than the buffer of the buffered
  writer and whose second entry does not encode fails on the second entry; the first
  entry is framed and added, and a flush was performed for it, between its header and
  its payload.
\<close>

theorem WriteBatch_flushes_counterexample:
  "NewEntryWriter (quiet, [] :: event list) = Inr (fresh (quiet, [])) \<and>
   map_option fst (WriteBatch (traced wireT) [entryBig, entryBad, entryA] (fresh (quiet, [])))
     = Some (Some (ErrExternal 7)) \<and>
   map_option (trace \<circ> snd)
     (WriteBatch (traced wireT) [entryBig, entryBad, entryA] (fresh (quiet, [])))
     = Some [EvWrite (PutUint32 NEW_ENTRY_MAGIC @ replicate 34 1 @ PutUint64 1) 46,
             EvFlush, EvWrite (replicate 4194305 2) 4194305] \<and>
   map_option (flushes \<circ> trace \<circ> snd)
     (WriteBatch (traced wireT) [entryBig, entryBad, entryA] (fresh (quiet, [])))
     = Some 1"
proof -
  obtain w' where "WriteBatch (traced wireT) [entryBig, entryBad, entryA] (fresh (quiet, []))
           = Some (Some (ErrExternal 7), w')"
    "trace w' = [EvWrite (PutUint32 NEW_ENTRY_MAGIC @ replicate 34 1 @ PutUint64 1) 46,
                     EvFlush, EvWrite (replicate 4194305 2) 4194305]"
    using wire_batch by blast
  then show ?thesis by (simp add: NewEntryWriter_fresh)
qed

subsection \<open>No function reads the hot flag\<close>

lemma with_hot_fields [simp]:
  "io (with_hot h w) = io w" "ecb (with_hot h w) = ecb w" "buff (with_hot h w) = buff w"
  "id_ew (with_hot h w) = id_ew w" "ackTimeout (with_hot h w) = ackTimeout w"
  "hot (with_hot h w) = h"
  by (simp_all add: with_hot_def)

lemma with_hot_updates [simp]:
  "(with_hot h w)\<lparr>io := x\<rparr> = with_hot h (w\<lparr>io := x\<rparr>)"
  "(with_hot h w)\<lparr>ecb := y\<rparr> = with_hot h (w\<lparr>ecb := y\<rparr>)"
  "(with_hot h w)\<lparr>buff := z\<rparr> = with_hot h (w\<lparr>buff := z\<rparr>)"
  "(with_hot h w)\<lparr>id_ew := i\<rparr> = with_hot h (w\<lparr>id_ew := i\<rparr>)"
  "(with_hot h w)\<lparr>ackTimeout := t\<rparr> = with_hot h (w\<lparr>ackTimeout := t\<rparr>)"
  "with_hot h (with_hot h' w) = with_hot h w"
  by (simp_all add: with_hot_def)

lemma with_hot_same [simp]: "with_hot (hot w) w = w"
  by (simp add: with_hot_def)

lemma writeAll_loop_with_hot:
  "writeAll_loop T b tot (with_hot h ew) = apsnd (with_hot h) (writeAll_loop T b tot ew)"
proof (induction "length b - tot" arbitrary: tot ew rule: less_induct)
  case less
  show ?case
  proof (cases "tot < length b")
    case False
    then show ?thesis by (simp add: writeAll_loop.simps)
  next
    case True
    obtain n err io1 where w: "bIO_Write T (io ew) (drop tot b) = ((n, err), io1)"
      by (metis prod.exhaust)
    obtain ferr io2 where f: "bIO_Flush T io1 = (ferr, io2)" by (metis prod.exhaust)
    show ?thesis
    proof (cases "err = None \<and> n \<noteq> 0 \<and> tot + n \<noteq> length b \<and> ferr = None")
      case c: True
      then have "length b - (tot + n) < length b - tot" using True by linarith
      from less[OF this, of "ew\<lparr>io := io2\<rparr>"] True w f c show ?thesis
        by (subst (1 2) writeAll_loop.simps) simp
    next
      case False
      with True w f show ?thesis
        by (subst (1 2) writeAll_loop.simps) auto
    qed
  qed
qed

lemma writeAll_with_hot [simp]:
  "writeAll T b (with_hot h ew) = apsnd (with_hot h) (writeAll T b ew)"
  by (simp add: writeAll_def writeAll_loop_with_hot)

lemma throwAckSync_with_hot [simp]:
  "throwAckSync T (with_hot h ew) = apsnd (with_hot h) (throwAckSync T ew)"
  by (simp add: throwAckSync_def split: prod.splits option.splits)

lemma readAcks_frame_with_hot [simp]:
  "readAcks_frame T (with_hot h ew) = apsnd (with_hot h) (readAcks_frame T ew)"
  by (simp add: readAcks_frame_def Let_def split: prod.splits sum.splits)


lemma readAcks_with_hot_Some:
  assumes h: "readAcks T b ew = Some y"
  shows "readAcks T b (with_hot hh ew) = Some (apsnd (with_hot hh) y)"
proof -
  have "\<forall>hh. readAcks T b (with_hot hh ew) = Some (apsnd (with_hot hh) y)"
  proof (rule readAcks.raw_induct[where P = "\<lambda>T b ew y.
            \<forall>hh. readAcks T b (with_hot hh ew) = Some (apsnd (with_hot hh) y)", OF _ h],
         intro allI)
    fix f :: "'a transport \<Rightarrow> bool \<Rightarrow> 'a EntryWriter \<Rightarrow> (error option \<times> 'a EntryWriter) option"
    fix T b ew y hh
    assume IH: "\<And>T b ew y. f T b ew = Some y \<Longrightarrow>
                  \<forall>hh. readAcks T b (with_hot hh ew) = Some (apsnd (with_hot hh) y)"
      and body: "(if Count (ecb ew) > 0 \<and> (bAckReader_Buffered T (io ew) \<ge> ACK_SIZE \<or> b) then
        (case readAcks_frame T ew of
           (Inl err, ew1) \<Rightarrow> Some (Some err, ew1)
         | (Inr None, ew1) \<Rightarrow> f T b ew1
         | (Inr (Some i), ew1) \<Rightarrow>
             (case Confirm i (ecb ew1) of
                (cerr, b) \<Rightarrow>
                  if cerr \<noteq> None \<and> cerr \<noteq> Some errEntryNotFound
                  then Some (cerr, ew1\<lparr>ecb := b\<rparr>)
                  else f T False (ew1\<lparr>ecb := b\<rparr>)))
      else Some (None, ew)) = Some y"
    show "readAcks T b (with_hot hh ew) = Some (apsnd (with_hot hh) y)"
    proof (cases "Count (ecb ew) > 0 \<and> (bAckReader_Buffered T (io ew) \<ge> ACK_SIZE \<or> b)")
      case False
      with body show ?thesis by (subst readAcks.simps) auto
    next
      case True
      obtain r ew1 where fr: "readAcks_frame T ew = (r, ew1)" by (metis prod.exhaust)
      show ?thesis
      proof (cases r)
        case (Inl err)
        with body True fr show ?thesis by (subst readAcks.simps) auto
      next
        case (Inr o1)
        show ?thesis
        proof (cases o1)
          case None
          with body True fr Inr have "f T b ew1 = Some y" by simp
          from IH[OF this] have "readAcks T b (with_hot hh ew1) = Some (apsnd (with_hot hh) y)"
            by blast
          with True fr Inr None show ?thesis by (subst readAcks.simps) simp
        next
          case (Some i)
          obtain cerr bb where c: "Confirm i (ecb ew1) = (cerr, bb)" by (metis prod.exhaust)
          show ?thesis
          proof (cases "cerr \<noteq> None \<and> cerr \<noteq> Some errEntryNotFound")
            case t: True
            with body True fr Inr Some c show ?thesis by (subst readAcks.simps) auto
          next
            case f: False
            with body True fr Inr Some c
            have "f T False (ew1\<lparr>ecb := bb\<rparr>) = Some y" by auto
            from IH[OF this]
            have "readAcks T False (with_hot hh (ew1\<lparr>ecb := bb\<rparr>)) = Some (apsnd (with_hot hh) y)"
              by blast
            with True fr Inr Some c f show ?thesis by (subst readAcks.simps) auto
          qed
        qed
      qed
    qed
  qed
  then show ?thesis by blast
qed

lemma readAcks_with_hot [simp]:
  "readAcks T b (with_hot h ew) = map_option (apsnd (with_hot h)) (readAcks T b ew)"
proof (cases "readAcks T b ew")
  case (Some y)
  from readAcks_with_hot_Some[OF this] Some show ?thesis by simp
next
  case None
  have "readAcks T b (with_hot h ew) = None"
  proof (rule ccontr)
    assume "readAcks T b (with_hot h ew) \<noteq> None"
    then obtain y where "readAcks T b (with_hot h ew) = Some y" by auto
    from readAcks_with_hot_Some[OF this, of "hot ew"] None show False by simp
  qed
  with None show ?thesis by simp
qed

lemma serviceAcks_with_hot [simp]:
  "serviceAcks T b (with_hot h ew) = map_option (apsnd (with_hot h)) (serviceAcks T b ew)"
  by (auto simp: serviceAcks_def split: prod.splits option.splits)


lemma forceAckNoLock_loop_with_hot_Some:
  assumes h: "forceAckNoLock_loop T ew = Some y"
  shows "forceAckNoLock_loop T (with_hot hh ew) = Some (apsnd (with_hot hh) y)"
proof -
  have "\<forall>hh. forceAckNoLock_loop T (with_hot hh ew) = Some (apsnd (with_hot hh) y)"
  proof (rule forceAckNoLock_loop.raw_induct[where P = "\<lambda>T ew y.
            \<forall>hh. forceAckNoLock_loop T (with_hot hh ew) = Some (apsnd (with_hot hh) y)", OF _ h],
         intro allI)
    fix f :: "'a transport \<Rightarrow> 'a EntryWriter \<Rightarrow> (error option \<times> 'a EntryWriter) option"
    fix T ew y hh
    assume IH: "\<And>T ew y. f T ew = Some y \<Longrightarrow>
                  \<forall>hh. forceAckNoLock_loop T (with_hot hh ew) = Some (apsnd (with_hot hh) y)"
      and body: "(if Count (ecb ew) > 0 then
        (case conn_SetReadDeadline T (io ew) (Some (ackTimeout ew)) of
           (Some err, io1) \<Rightarrow> Some (Some err, ew\<lparr>io := io1\<rparr>)
         | (None, io1) \<Rightarrow>
             (case serviceAcks T True (ew\<lparr>io := io1\<rparr>) of
                None \<Rightarrow> None
              | Some (Some err, ew2) \<Rightarrow>
                  Some (Some err, ew2\<lparr>io := snd (conn_SetReadDeadline T (io ew2) None)\<rparr>)
              | Some (None, ew2) \<Rightarrow>
                  f T (ew2\<lparr>io := snd (conn_SetReadDeadline T (io ew2) None)\<rparr>)))
      else Some (None, ew)) = Some y"
    show "forceAckNoLock_loop T (with_hot hh ew) = Some (apsnd (with_hot hh) y)"
    proof (cases "Count (ecb ew) > 0")
      case False
      with body show ?thesis by (subst forceAckNoLock_loop.simps) auto
    next
      case True
      obtain e1 io1 where d: "conn_SetReadDeadline T (io ew) (Some (ackTimeout ew)) = (e1, io1)"
        by (metis prod.exhaust)
      show ?thesis
      proof (cases e1)
        case (Some err)
        with body True d show ?thesis by (subst forceAckNoLock_loop.simps) auto
      next
        case None
        with body True d obtain e2 ew2 where
          s: "serviceAcks T True (ew\<lparr>io := io1\<rparr>) = Some (e2, ew2)"
          by (cases "serviceAcks T True (ew\<lparr>io := io1\<rparr>)") auto
        show ?thesis
        proof (cases e2)
          case (Some err)
          with body True d None s show ?thesis by (subst forceAckNoLock_loop.simps) auto
        next
          case n2: None
          with body True d None s
          have "f T (ew2\<lparr>io := snd (conn_SetReadDeadline T (io ew2) None)\<rparr>) = Some y" by simp
          from IH[OF this]
          have "forceAckNoLock_loop T
                  (with_hot hh (ew2\<lparr>io := snd (conn_SetReadDeadline T (io ew2) None)\<rparr>))
                = Some (apsnd (with_hot hh) y)" by blast
          with True d None s n2 show ?thesis by (subst forceAckNoLock_loop.simps) simp
        qed
      qed
    qed
  qed
  then show ?thesis by blast
qed

lemma forceAckNoLock_loop_with_hot [simp]:
  "forceAckNoLock_loop T (with_hot h ew) = map_option (apsnd (with_hot h)) (forceAckNoLock_loop T ew)"
proof (cases "forceAckNoLock_loop T ew")
  case (Some y)
  from forceAckNoLock_loop_with_hot_Some[OF this] Some show ?thesis by simp
next
  case None
  have "forceAckNoLock_loop T (with_hot h ew) = None"
  proof (rule ccontr)
    assume "forceAckNoLock_loop T (with_hot h ew) \<noteq> None"
    then obtain y where "forceAckNoLock_loop T (with_hot h ew) = Some y" by auto
    from forceAckNoLock_loop_with_hot_Some[OF this, of "hot ew"] None show False by simp
  qed
  with None show ?thesis by simp
qed

lemma forceAckNoLock_with_hot [simp]:
  "forceAckNoLock T (with_hot h ew) = map_option (apsnd (with_hot h)) (forceAckNoLock T ew)"
  by (auto simp: forceAckNoLock_def split: prod.splits option.splits)

lemma ForceAck_with_hot:
  "ForceAck T (with_hot h ew) = map_option (apsnd (with_hot h)) (ForceAck T ew)"
  by (simp add: ForceAck_def)

lemma writeEntry_header_with_hot [simp]:
  "writeEntry_header T ent (with_hot h ew)
     = map_option (apsnd (with_hot h)) (writeEntry_header T ent ew)"
  by (auto simp: writeEntry_header_def Let_def split: prod.splits option.splits sum.splits)

lemma writeEntry_with_hot [simp]:
  "writeEntry T ent fl (with_hot h ew) = map_option (apsnd (with_hot h)) (writeEntry T ent fl ew)"
  by (auto simp: writeEntry_def Let_def split: prod.splits option.splits)

lemma writeFlush_with_hot [simp]:
  "writeFlush T ent fl (with_hot h ew) = map_option (apsnd (with_hot h)) (writeFlush T ent fl ew)"
  by (auto simp: writeFlush_def Let_def split: prod.splits option.splits)

lemma WriteWithHint_with_hot:
  "WriteWithHint T ent (with_hot h ew) = map_option (apsnd (with_hot h)) (WriteWithHint T ent ew)"
  by (auto simp: WriteWithHint_def Let_def split: prod.splits option.splits)

lemma WriteBatch_with_hot:
  "WriteBatch T ents (with_hot h ew) = map_option (apsnd (with_hot h)) (WriteBatch T ents ew)"
  by (induction ents arbitrary: ew) (auto split: prod.splits option.splits)

lemma Ack_with_hot:
  "Ack T (with_hot h ew) = map_option (apsnd (with_hot h)) (Ack T ew)"
  by (simp add: Ack_def)

lemma OverrideAckTimeout_with_hot:
  "OverrideAckTimeout d (with_hot h ew) = apsnd (with_hot h) (OverrideAckTimeout d ew)"
  by (simp add: OverrideAckTimeout_def Let_def)

lemma Close_hot: "Close T ew = Some (e, ew') \<Longrightarrow> hot ew' = False"
  by (auto simp: Close_def split: prod.splits option.splits)

lemma with_hot_overwritten [simp]: "(with_hot h w)\<lparr>hot := x\<rparr> = w\<lparr>hot := x\<rparr>"
  by (simp add: with_hot_def)

lemma Close_with_hot: "Close T (with_hot h ew) = Close T ew"
  by (auto simp: Close_def split: prod.splits option.splits)


lemma Close_done:
  assumes "Close T ew = Some (None, ew')"
  shows "Count (ecb ew') = 0"
proof -
  from assms obtain e1 ew1 where f: "forceAckNoLock T ew = Some (e1, ew1)"
    by (cases "forceAckNoLock T ew") (auto simp: Close_def)
  with assms have e1: "e1 = None" by (cases e1) (auto simp: Close_def)
  from f e1 have c: "Count (ecb ew1) = 0"
    by (auto simp: forceAckNoLock_def split: prod.splits option.splits if_splits)
  obtain e2 io2 where d: "conn_SetReadDeadline T (io ew1) (Some (ackTimeout ew1)) = (e2, io2)"
    by (metis prod.exhaust)
  from c have "readAcks T True (ew1\<lparr>io := io2\<rparr>) = Some (None, ew1\<lparr>io := io2\<rparr>)"
    by (intro readAcks_empty) simp
  with assms f e1 d have "ecb ew' = ecb ew1"
    by (cases e2) (auto simp: Close_def)
  with c show ?thesis by simp
qed

lemma Close_fresh:
  "Close (traced peerT) (fresh (idle, [])) = Some (None, shut)"
  by (simp add: Close_def forceAckNoLock_def throwAckSync_def writeAll_traced_peer
      forceAckNoLock_loop.simps readAcks_empty fresh_def idle_def Count_def shut_def
      PutUint32_def)

text \<open>
  Claim C3, as amended. Close leaves the writer non-hot, but nothing reads the flag:
  Write, WriteSync, WriteBatch, WriteWithHint, Ack, ForceAck, OpenSlots,
  OverrideAckTimeout and Close itself do on a writer exactly what they do on the same
  writer with the flag set the other way, with the same results and the same calls on
  the transport. So after Close an operation fails only where a call it makes on the
  closed connection fails: WriteBatch of no entries still succeeds and
  OverrideAckTimeout still stores a positive duration without error; after a Close
  that returned no error nothing is outstanding, Ack succeeds and every slot is open.
\<close>

theorem hot_is_never_read:
  "Write T ent (with_hot h ew) = map_option (apsnd (with_hot h)) (Write T ent ew) \<and>
   WriteSync T ent (with_hot h ew) = map_option (apsnd (with_hot h)) (WriteSync T ent ew) \<and>
   WriteBatch T ents (with_hot h ew) = map_option (apsnd (with_hot h)) (WriteBatch T ents ew) \<and>
   WriteWithHint T ent (with_hot h ew)
     = map_option (apsnd (with_hot h)) (WriteWithHint T ent ew) \<and>
   Ack T (with_hot h ew) = map_option (apsnd (with_hot h)) (Ack T ew) \<and>
   ForceAck T (with_hot h ew) = map_option (apsnd (with_hot h)) (ForceAck T ew) \<and>
   OpenSlots (with_hot h ew) = OpenSlots ew \<and>
   OverrideAckTimeout d (with_hot h ew) = apsnd (with_hot h) (OverrideAckTimeout d ew) \<and>
   Close T (with_hot h ew) = Close T ew \<and>
   (Close T ew = Some (e, ew') \<longrightarrow>
      hot ew' = False \<and> WriteBatch T [] ew' = Some (None, ew') \<and>
      (0 < d \<longrightarrow> OverrideAckTimeout d ew' = (None, ew'\<lparr>ackTimeout := d\<rparr>)) \<and>
      (e = None \<longrightarrow> Count (ecb ew') = 0 \<and> Ack T ew' = Some (None, ew') \<and>
                       OpenSlots ew' = capacity (ecb ew')))"
proof (intro conjI impI)
  show "Write T ent (with_hot h ew) = map_option (apsnd (with_hot h)) (Write T ent ew)"
    by (simp add: Write_def)
  show "WriteSync T ent (with_hot h ew) = map_option (apsnd (with_hot h)) (WriteSync T ent ew)"
    by (simp add: WriteSync_def)
  show "WriteBatch T ents (with_hot h ew) = map_option (apsnd (with_hot h)) (WriteBatch T ents ew)"
    by (rule WriteBatch_with_hot)
  show "WriteWithHint T ent (with_hot h ew)
          = map_option (apsnd (with_hot h)) (WriteWithHint T ent ew)"
    by (rule WriteWithHint_with_hot)
  show "Ack T (with_hot h ew) = map_option (apsnd (with_hot h)) (Ack T ew)"
    by (rule Ack_with_hot)
  show "ForceAck T (with_hot h ew) = map_option (apsnd (with_hot h)) (ForceAck T ew)"
    by (rule ForceAck_with_hot)
  show "OpenSlots (with_hot h ew) = OpenSlots ew" by (simp add: OpenSlots_def)
  show "OverrideAckTimeout d (with_hot h ew) = apsnd (with_hot h) (OverrideAckTimeout d ew)"
    by (rule OverrideAckTimeout_with_hot)
  show "Close T (with_hot h ew) = Close T ew" by (rule Close_with_hot)
next
  assume "Close T ew = Some (e, ew')"
  then show "hot ew' = False" by (rule Close_hot)
next
  show "WriteBatch T [] ew' = Some (None, ew')" by simp
next
  assume "0 < d"
  then show "OverrideAckTimeout d ew' = (None, ew'\<lparr>ackTimeout := d\<rparr>)"
    by (simp add: OverrideAckTimeout_def)
next
  assume "Close T ew = Some (e, ew')" "e = None"
  then have c: "Count (ecb ew') = 0" using Close_done by blast
  then show "Count (ecb ew') = 0" .
  from c show "Ack T ew' = Some (None, ew')" by (simp add: Ack_def)
  from c show "OpenSlots ew' = capacity (ecb ew')" by (simp add: OpenSlots_def Free_def)
qed

theorem hot_is_never_read_witness:
  "Close (traced peerT) (fresh (idle, [])) = Some (None, shut) \<and> (0 :: int) < 5 \<and>
   hot shut = False \<and>
   WriteBatch (traced peerT) [] shut = Some (None, shut) \<and>
   OverrideAckTimeout 5 shut = (None, shut\<lparr>ackTimeout := 5\<rparr>) \<and>
   Count (ecb shut) = 0 \<and> Ack (traced peerT) shut = Some (None, shut) \<and>
   OpenSlots shut = capacity (ecb shut) \<and>
   Write (traced peerT) entryA (with_hot True shut)
     = map_option (apsnd (with_hot True)) (Write (traced peerT) entryA shut)"
proof -
  have d: "(0 :: int) < 5" by simp
  note t = hot_is_never_read[where T = "traced peerT" and ew = "fresh (idle, [])" and e = None
              and ew' = shut and d = 5]
  note c = t[THEN conjunct2, THEN conjunct2, THEN conjunct2, THEN conjunct2, THEN conjunct2,
             THEN conjunct2, THEN conjunct2, THEN conjunct2, THEN conjunct2, THEN mp,
             OF Close_fresh]
  from c d have "hot shut = False" "WriteBatch (traced peerT) [] shut = Some (None, shut)"
    "OverrideAckTimeout 5 shut = (None, shut\<lparr>ackTimeout := 5\<rparr>)"
    "Count (ecb shut) = 0" "Ack (traced peerT) shut = Some (None, shut)"
    "OpenSlots shut = capacity (ecb shut)" by simp_all
  moreover from hot_is_never_read[where T = "traced peerT" and ew = shut and h = True
                  and ent = entryA]
  have "Write (traced peerT) entryA (with_hot True shut)
     = map_option (apsnd (with_hot True)) (Write (traced peerT) entryA shut)" by (rule conjunct1)
  ultimately show ?thesis using Close_fresh d by simp
qed

text \<open>
  The claim as stated fails. On the writer NewEntryWriter builds, Close returns without
  error and leaves the writer non-hot. On that closed writer OverrideAckTimeout with
  five nanoseconds returns no error, WriteBatch of an empty batch and Ack return no
  error, and OpenSlots returns 4096: operations that make no call on the connection do
  not fail.
\<close>

theorem closed_writer_counterexample:
  "NewEntryWriter (idle, [] :: event list) = Inr (fresh (idle, [])) \<and>
   Close (traced peerT) (fresh (idle, [])) = Some (None, shut) \<and> hot shut = False \<and>
   fst (OverrideAckTimeout 5 shut) = None \<and>
   map_option fst (WriteBatch (traced peerT) [] shut) = Some None \<and>
   map_option fst (Ack (traced peerT) shut) = Some None \<and>
   OpenSlots shut = 4096"
  by (simp add: NewEntryWriter_fresh Close_fresh)
     (simp add: shut_def fresh_def OverrideAckTimeout_def Ack_def OpenSlots_def Free_def Count_def)

subsection \<open>The ack stream\<close>

lemma Confirm_empty: "Count b = 0 \<Longrightarrow> snd (Confirm i b) = b"
  by (simp add: Confirm_def Count_def)

lemma fold_Confirm_empty:
  "Count b = 0 \<Longrightarrow> fold (\<lambda>i b. snd (Confirm i b)) ids b = b"
  by (induction ids) (simp_all add: Confirm_empty)

lemma Uint32_append: "4 \<le> length w \<Longrightarrow> Uint32 (w @ r) = Uint32 w"
proof -
  assume "4 \<le> length w"
  then obtain a b c d w' where "w = a # b # c # d # w'"
    by (auto simp: Suc_le_length_iff numeral_eq_Suc)
  then show ?thesis by simp
qed

lemma Uint64_prefix:
  assumes "8 \<le> length t" and "take 8 u = take 8 t"
  shows "Uint64 u = Uint64 t"
proof -
  from assms(1) obtain b0 b1 b2 b3 b4 b5 b6 b7 t' where
    t: "t = b0 # b1 # b2 # b3 # b4 # b5 # b6 # b7 # t'"
    by (auto simp: Suc_le_length_iff numeral_eq_Suc)
  with assms(2) have "take 8 u = [b0, b1, b2, b3, b4, b5, b6, b7]" by simp
  then obtain u' where "u = b0 # b1 # b2 # b3 # b4 # b5 # b6 # b7 # u'"
    by (auto simp: take_Suc_conv_app_nth numeral_eq_Suc take_Cons' split: if_splits list.splits)
       (metis append_take_drop_id append_Cons append_Nil)
  with t show ?thesis by simp
qed


lemma readAcks_frame_window:
  assumes p: "pending (io ew) = w @ tail" and lw: "length w = ACK_SIZE"
    and lb: "ACK_SIZE \<le> length (buff ew)"
  shows "bAckReader_ReadFull peerT (io ew) ACK_SIZE = (Inr w, (io ew)\<lparr>pending := tail\<rparr>)"
    and "blit (buff ew) 0 (take ACK_SIZE w) = w @ drop ACK_SIZE (buff ew)"
    and "blit (buff ew) 0 w = w @ drop 12 (buff ew)"
  using assms by (simp_all add: blit_eq ACK_SIZE_def)

lemma readAcks_frames:
  "pending (io ew) = concat (map confirmFrame ids) \<Longrightarrow> ACK_SIZE \<le> length (buff ew) \<Longrightarrow>
   (blocking \<longrightarrow> ids \<noteq> [] \<or> Count (ecb ew) = 0) \<Longrightarrow>
     \<exists>ew'. readAcks peerT blocking ew = Some (None, ew') \<and>
           ecb ew' = fold (\<lambda>i b. snd (Confirm i b)) ids (ecb ew)"
proof (induction ids arbitrary: ew blocking)
  case Nil
  show ?case
  proof (cases "Count (ecb ew) = 0")
    case True
    then show ?thesis by (simp add: readAcks_empty)
  next
    case False
    with Nil.prems(3) have "\<not> blocking" by simp
    moreover from Nil.prems(1) have "bAckReader_Buffered peerT (io ew) < ACK_SIZE"
      by (simp add: ACK_SIZE_def)
    ultimately show ?thesis by (simp add: readAcks_dry)
  qed
next
  case (Cons i ids)
  show ?case
  proof (cases "Count (ecb ew) = 0")
    case True
    then show ?thesis by (simp add: readAcks_empty fold_Confirm_empty Confirm_empty)
  next
    case False
    then have c: "0 < Count (ecb ew)" by simp
    from Cons.prems(1) have p: "pending (io ew) = confirmFrame i @ concat (map confirmFrame ids)"
      by simp
    have lw: "length (confirmFrame i) = ACK_SIZE" by (simp add: ACK_SIZE_def)
    let ?io1 = "(io ew)\<lparr>pending := concat (map confirmFrame ids)\<rparr>"
    let ?ew1 = "ew\<lparr>io := ?io1, buff := confirmFrame i @ drop ACK_SIZE (buff ew)\<rparr>"
    have fr: "readAcks_frame peerT ew = (Inr (Some i), ?ew1)"
      by (rule readAcks_frame_at0[OF readAcks_frame_window(1)[OF p lw Cons.prems(2)] Cons.prems(2)])
    have b: "ACK_SIZE \<le> bAckReader_Buffered peerT (io ew) \<or> blocking"
      using p by (simp add: ACK_SIZE_def)
    let ?ew2 = "?ew1\<lparr>ecb := snd (Confirm i (ecb ?ew1))\<rparr>"
    have st: "readAcks peerT blocking ew = readAcks peerT False ?ew2"
      by (rule readAcks_confirm_step[OF c b fr])
    have "\<exists>ew'. readAcks peerT False ?ew2 = Some (None, ew') \<and>
           ecb ew' = fold (\<lambda>i b. snd (Confirm i b)) ids (ecb ?ew2)"
      using Cons.prems(2) by (intro Cons.IH) (simp_all add: ACK_SIZE_def)
    with st show ?thesis by simp
  qed
qed

lemma readAcks_discards:
  assumes p: "pending (io ew) = w @ tail" and lw: "length w = ACK_SIZE"
    and lb: "ACK_SIZE \<le> length (buff ew)" and c: "0 < Count (ecb ew)"
    and m: "Uint32 w \<noteq> CONFIRM_ENTRY_MAGIC" "Uint32 (drop 4 w) \<noteq> CONFIRM_ENTRY_MAGIC"
           "Uint32 (drop 8 w) \<noteq> CONFIRM_ENTRY_MAGIC"
  shows "readAcks peerT blocking ew =
           readAcks peerT blocking (ew\<lparr>io := (io ew)\<lparr>pending := tail\<rparr>,
                                       buff := w @ drop ACK_SIZE (buff ew)\<rparr>)"
proof -
  note r = readAcks_frame_window[OF p lw lb]
  have u: "Uint32 (w @ r) = Uint32 w" "Uint32 (drop 4 w @ r) = Uint32 (drop 4 w)"
    "Uint32 (drop 8 w @ r) = Uint32 (drop 8 w)" for r
    using lw by (simp_all add: Uint32_append ACK_SIZE_def)
  have fr: "readAcks_frame peerT ew =
              (Inr None, ew\<lparr>io := (io ew)\<lparr>pending := tail\<rparr>,
                             buff := w @ drop ACK_SIZE (buff ew)\<rparr>)"
    unfolding readAcks_frame_def r(1)
    using m lw by (simp add: Let_def u ACK_SIZE_def r(3))
  have b: "ACK_SIZE \<le> bAckReader_Buffered peerT (io ew) \<or> blocking"
    using p lw by simp
  show ?thesis by (rule readAcks_skip_step[OF c b fr])
qed

lemma readAcks_frame_offset8:
  assumes p: "pending (io ew) = w @ tail" and lw: "length w = ACK_SIZE"
    and lb: "length (buff ew) = READ_ENTRY_HEADER_SIZE"
    and m: "Uint32 w \<noteq> CONFIRM_ENTRY_MAGIC" "Uint32 (drop 4 w) \<noteq> CONFIRM_ENTRY_MAGIC"
           "Uint32 (drop 8 w) = CONFIRM_ENTRY_MAGIC"
    and fr: "readAcks_frame peerT ew = (Inr (Some i), ew1)"
  shows "i = Uint64 tail"
proof -
  have lb': "ACK_SIZE \<le> length (buff ew)"
    using lb by (simp add: READ_ENTRY_HEADER_SIZE_def ENTRY_HEADER_SIZE_def ACK_SIZE_def)
  note r = readAcks_frame_window[OF p lw lb']
  have u: "Uint32 (w @ r) = Uint32 w" "Uint32 (drop 4 w @ r) = Uint32 (drop 4 w)"
    "Uint32 (drop 8 w @ r) = Uint32 (drop 8 w)" for r
    using lw by (simp_all add: Uint32_append ACK_SIZE_def)
  have t: "12 \<le> length tail"
  proof (rule ccontr)
    assume "\<not> 12 \<le> length tail"
    with fr m lw show False
      unfolding readAcks_frame_def r(1)
      by (simp add: Let_def u ACK_SIZE_def r(3))
  qed
  have bl: "blit (w @ drop 12 (buff ew)) 12 (take 12 tail)
              = w @ take 12 tail @ drop 24 (buff ew)"
    using lw lb t
    by (simp add: blit_eq READ_ENTRY_HEADER_SIZE_def ENTRY_HEADER_SIZE_def ACK_SIZE_def)
  from fr m lw t have "i = Uint64 (drop 12 (w @ take 12 tail @ drop 24 (buff ew)))"
    unfolding readAcks_frame_def r(1)
    by (auto simp: Let_def u ACK_SIZE_def r(3) bl)
  also have "\<dots> = Uint64 (take 12 tail @ drop 24 (buff ew))" using lw by (simp add: ACK_SIZE_def)
  also have "\<dots> = Uint64 tail"
    using t by (intro Uint64_prefix) simp_all
  finally show ?thesis .
qed


lemma garbage_window:
  "Uint32 (take 12 ([0xFF, 0xFF, 0xFF] @ confirmFrame 1)) \<noteq> CONFIRM_ENTRY_MAGIC"
  "Uint32 (drop 4 (take 12 ([0xFF, 0xFF, 0xFF] @ confirmFrame 1))) \<noteq> CONFIRM_ENTRY_MAGIC"
  "Uint32 (drop 8 (take 12 ([0xFF, 0xFF, 0xFF] @ confirmFrame 1))) \<noteq> CONFIRM_ENTRY_MAGIC"
  by (simp_all add: confirmFrame_def PutUint32_def PutUint64_def CONFIRM_ENTRY_MAGIC_def)

lemma garbage_discarded:
  "readAcks peerT b (oneOut (idle\<lparr>pending := [0xFF, 0xFF, 0xFF] @ confirmFrame 1\<rparr>)) =
     readAcks peerT b
       (oneOut (idle\<lparr>pending := drop 12 ([0xFF, 0xFF, 0xFF] @ confirmFrame 1)\<rparr>)
          \<lparr>buff := take 12 ([0xFF, 0xFF, 0xFF] @ confirmFrame 1) @ drop 12 (buff (oneOut idle))\<rparr>)"
proof -
  let ?p = "[0xFF, 0xFF, 0xFF] @ confirmFrame 1"
  let ?g = "oneOut (idle\<lparr>pending := ?p\<rparr>)"
  have p: "pending (io ?g) = take 12 ?p @ drop 12 ?p" by (simp add: oneOut_def)
  have lw: "length (take 12 ?p) = ACK_SIZE" by (simp add: ACK_SIZE_def)
  have lb: "ACK_SIZE \<le> length (buff ?g)" by (simp add: oneOut_def ACK_SIZE_def)
  have c: "0 < Count (ecb ?g)" by (simp add: oneOut_def Count_def)
  have e: "?g\<lparr>io := (io ?g)\<lparr>pending := drop 12 ?p\<rparr>,
               buff := take 12 ?p @ drop ACK_SIZE (buff ?g)\<rparr>
           = oneOut (idle\<lparr>pending := drop 12 ?p\<rparr>)
               \<lparr>buff := take 12 ?p @ drop 12 (buff (oneOut idle))\<rparr>"
    by (simp add: oneOut_def ACK_SIZE_def)
  from readAcks_discards[OF p lw lb c garbage_window, of b] show ?thesis
    unfolding e .
qed

lemma garbage_nonblocking:
  "\<exists>W. readAcks peerT False (oneOut (idle\<lparr>pending := [0xFF, 0xFF, 0xFF] @ confirmFrame 1\<rparr>))
          = Some (None, W) \<and> recs (ecb W) = [(1, entryA)]"
  unfolding garbage_discarded
  by (subst readAcks_dry) (simp_all add: oneOut_def idle_def ACK_SIZE_def)

lemma garbage_Ack:
  "\<exists>W. Ack peerT (oneOut (idle\<lparr>pending := [0xFF, 0xFF, 0xFF] @ confirmFrame 1\<rparr>))
          = Some (Some ErrTimeout, W) \<and> recs (ecb W) = [(1, entryA)]"
proof -
  let ?p = "[0xFF, 0xFF, 0xFF] @ confirmFrame 1"
  let ?g = "oneOut (idle\<lparr>pending := ?p\<rparr>)"
  let ?g1 = "oneOut (idle\<lparr>pending := drop 12 ?p\<rparr>)
               \<lparr>buff := take 12 ?p @ drop 12 (buff (oneOut idle))\<rparr>"
  have c: "0 < Count (ecb ?g1)" by (simp add: oneOut_def Count_def)
  have fr: "readAcks_frame peerT ?g1 = (Inl ErrTimeout, ?g1\<lparr>io := idle\<rparr>)"
    by (simp add: readAcks_frame_def oneOut_def idle_def ACK_SIZE_def)
  have "readAcks peerT True ?g = Some (Some ErrTimeout, ?g1\<lparr>io := idle\<rparr>)"
    unfolding garbage_discarded by (rule readAcks_error_step[OF c _ fr]) simp
  then have "Ack peerT ?g = Some (Some ErrTimeout, ?g1\<lparr>io := idle\<rparr>)"
    by (simp add: Ack_def serviceAcks_def oneOut_def idle_def Count_def)
  moreover have "recs (ecb (?g1\<lparr>io := idle\<rparr>)) = [(1, entryA)]" by (simp add: oneOut_def)
  ultimately show ?thesis by blast
qed

lemma offset8_frame:
  "\<exists>i ew1. readAcks_frame peerT
      (oneOut (idle\<lparr>pending := (replicate 8 0 @ PutUint32 CONFIRM_ENTRY_MAGIC)
                                   @ (PutUint64 1 @ replicate 4 0)\<rparr>)) = (Inr (Some i), ew1)"
  by (simp add: readAcks_frame_def oneOut_def idle_def ACK_SIZE_def Let_def blit_eq
      CONFIRM_ENTRY_MAGIC_def NEW_ENTRY_MAGIC_def PutUint32_def PutUint64_def)


text \<open>
  Claim C1, as amended. On an ack stream of valid 12-byte Confirm frames with nothing
  between them, readAcks returns without error and has confirmed the send-ids of the
  frames in turn (a blocking call needs a frame to read, or nothing outstanding). The
  search for the magic looks at the offsets 0, 4 and 8 of the 12-byte window only: a
  window that shows the magic at none of them is discarded whole, and the loop goes on
  with the bytes after it, nothing confirmed. When the magic is found at offset 8 and
  the round yields a send-id, that send-id is the 8 bytes that follow the magic in the
  stream.
\<close>

theorem readAcks_resync:
  assumes "length (buff ew) = READ_ENTRY_HEADER_SIZE"
  shows "(pending (io ew) = concat (map confirmFrame ids) \<and>
          (blocking \<longrightarrow> ids \<noteq> [] \<or> Count (ecb ew) = 0) \<longrightarrow>
            (\<exists>ew'. readAcks peerT blocking ew = Some (None, ew') \<and>
                   ecb ew' = fold (\<lambda>i b. snd (Confirm i b)) ids (ecb ew))) \<and>
         (pending (io ew) = w @ tail \<and> length w = ACK_SIZE \<and> 0 < Count (ecb ew) \<and>
          Uint32 w \<noteq> CONFIRM_ENTRY_MAGIC \<and> Uint32 (drop 4 w) \<noteq> CONFIRM_ENTRY_MAGIC \<and>
          Uint32 (drop 8 w) \<noteq> CONFIRM_ENTRY_MAGIC \<longrightarrow>
            readAcks peerT blocking ew =
              readAcks peerT blocking (ew\<lparr>io := (io ew)\<lparr>pending := tail\<rparr>,
                                          buff := w @ drop ACK_SIZE (buff ew)\<rparr>)) \<and>
         (pending (io ew) = w @ tail \<and> length w = ACK_SIZE \<and>
          Uint32 w \<noteq> CONFIRM_ENTRY_MAGIC \<and> Uint32 (drop 4 w) \<noteq> CONFIRM_ENTRY_MAGIC \<and>
          Uint32 (drop 8 w) = CONFIRM_ENTRY_MAGIC \<and>
          readAcks_frame peerT ew = (Inr (Some i), ew1) \<longrightarrow> i = Uint64 tail)"
proof -
  have lb: "ACK_SIZE \<le> length (buff ew)"
    using assms by (simp add: READ_ENTRY_HEADER_SIZE_def ENTRY_HEADER_SIZE_def ACK_SIZE_def)
  show ?thesis
  proof (intro conjI impI)
    assume a: "pending (io ew) = concat (map confirmFrame ids) \<and>
          (blocking \<longrightarrow> ids \<noteq> [] \<or> Count (ecb ew) = 0)"
    show "\<exists>ew'. readAcks peerT blocking ew = Some (None, ew') \<and>
                   ecb ew' = fold (\<lambda>i b. snd (Confirm i b)) ids (ecb ew)"
      by (rule readAcks_frames[OF _ lb]) (use a in simp_all)
  next
    assume a: "pending (io ew) = w @ tail \<and> length w = ACK_SIZE \<and> 0 < Count (ecb ew) \<and>
          Uint32 w \<noteq> CONFIRM_ENTRY_MAGIC \<and> Uint32 (drop 4 w) \<noteq> CONFIRM_ENTRY_MAGIC \<and>
          Uint32 (drop 8 w) \<noteq> CONFIRM_ENTRY_MAGIC"
    show "readAcks peerT blocking ew =
              readAcks peerT blocking (ew\<lparr>io := (io ew)\<lparr>pending := tail\<rparr>,
                                          buff := w @ drop ACK_SIZE (buff ew)\<rparr>)"
      by (rule readAcks_discards[OF _ _ lb]) (use a in simp_all)
  next
    assume a: "pending (io ew) = w @ tail \<and> length w = ACK_SIZE \<and>
          Uint32 w \<noteq> CONFIRM_ENTRY_MAGIC \<and> Uint32 (drop 4 w) \<noteq> CONFIRM_ENTRY_MAGIC \<and>
          Uint32 (drop 8 w) = CONFIRM_ENTRY_MAGIC \<and>
          readAcks_frame peerT ew = (Inr (Some i), ew1)"
    show "i = Uint64 tail"
      by (rule readAcks_frame_offset8[OF _ _ assms, of w tail i ew1]) (use a in simp_all)
  qed
qed

theorem readAcks_resync_witness:
  "length (buff (oneOut idle)) = READ_ENTRY_HEADER_SIZE \<and>
   (\<exists>ew'. readAcks peerT True (oneOut (idle\<lparr>pending := confirmFrame 1\<rparr>)) = Some (None, ew') \<and>
          recs (ecb ew') = []) \<and>
   readAcks peerT False (oneOut (idle\<lparr>pending := [0xFF, 0xFF, 0xFF] @ confirmFrame 1\<rparr>)) =
     readAcks peerT False
       (oneOut (idle\<lparr>pending := drop 9 (confirmFrame 1)\<rparr>)
          \<lparr>buff := ([0xFF, 0xFF, 0xFF] @ take 9 (confirmFrame 1)) @ drop 12 (buff (oneOut idle))\<rparr>) \<and>
   (\<exists>ew1. readAcks_frame peerT
      (oneOut (idle\<lparr>pending := (replicate 8 0 @ PutUint32 CONFIRM_ENTRY_MAGIC)
                                   @ (PutUint64 1 @ replicate 4 0)\<rparr>)) = (Inr (Some 1), ew1))"
proof -
  have l: "length (buff (oneOut conn)) = READ_ENTRY_HEADER_SIZE" for conn :: peer
    by (simp add: oneOut_def READ_ENTRY_HEADER_SIZE_def ENTRY_HEADER_SIZE_def)
  let ?a = "oneOut (idle\<lparr>pending := confirmFrame 1\<rparr>)"
  have ha: "pending (io ?a) = concat (map confirmFrame [1]) \<and>
            (True \<longrightarrow> [1 :: entrySendID] \<noteq> [] \<or> Count (ecb ?a) = 0)"
    by (simp add: oneOut_def)
  from readAcks_resync[OF l, of "idle\<lparr>pending := confirmFrame 1\<rparr>" "[1]" True,
         THEN conjunct1, THEN mp, OF ha]
  obtain ew' where a1: "readAcks peerT True ?a = Some (None, ew')"
    and a2: "ecb ew' = fold (\<lambda>i b. snd (Confirm i b)) [1] (ecb ?a)" by blast
  from a2 have a3: "recs (ecb ew') = []" by (simp add: oneOut_def Confirm_def)
  let ?p = "[0xFF, 0xFF, 0xFF] @ confirmFrame 1"
  let ?b = "oneOut (idle\<lparr>pending := ?p\<rparr>)"
  have hb: "pending (io ?b) = ([0xFF, 0xFF, 0xFF] @ take 9 (confirmFrame 1)) @ drop 9 (confirmFrame 1) \<and>
            length ([0xFF, 0xFF, 0xFF :: byte] @ take 9 (confirmFrame 1)) = ACK_SIZE \<and>
            0 < Count (ecb ?b) \<and>
            Uint32 ([0xFF, 0xFF, 0xFF] @ take 9 (confirmFrame 1)) \<noteq> CONFIRM_ENTRY_MAGIC \<and>
            Uint32 (drop 4 ([0xFF, 0xFF, 0xFF] @ take 9 (confirmFrame 1))) \<noteq> CONFIRM_ENTRY_MAGIC \<and>
            Uint32 (drop 8 ([0xFF, 0xFF, 0xFF] @ take 9 (confirmFrame 1))) \<noteq> CONFIRM_ENTRY_MAGIC"
    using garbage_window by (simp add: oneOut_def Count_def ACK_SIZE_def)
  have eb: "?b\<lparr>io := (io ?b)\<lparr>pending := drop 9 (confirmFrame 1)\<rparr>,
               buff := ([0xFF, 0xFF, 0xFF] @ take 9 (confirmFrame 1)) @ drop ACK_SIZE (buff ?b)\<rparr>
           = oneOut (idle\<lparr>pending := drop 9 (confirmFrame 1)\<rparr>)
               \<lparr>buff := ([0xFF, 0xFF, 0xFF] @ take 9 (confirmFrame 1)) @ drop 12 (buff (oneOut idle))\<rparr>"
    by (simp add: oneOut_def ACK_SIZE_def)
  from readAcks_resync[OF l, of "idle\<lparr>pending := ?p\<rparr>" _ False
         "[0xFF, 0xFF, 0xFF] @ take 9 (confirmFrame 1)" "drop 9 (confirmFrame 1)",
         THEN conjunct2, THEN conjunct1, THEN mp, OF hb]
  have b1: "readAcks peerT False ?b =
     readAcks peerT False
       (oneOut (idle\<lparr>pending := drop 9 (confirmFrame 1)\<rparr>)
          \<lparr>buff := ([0xFF, 0xFF, 0xFF] @ take 9 (confirmFrame 1)) @ drop 12 (buff (oneOut idle))\<rparr>)"
    unfolding eb .
  let ?w = "replicate 8 0 @ PutUint32 CONFIRM_ENTRY_MAGIC"
  let ?t = "PutUint64 1 @ replicate 4 0"
  let ?c = "oneOut (idle\<lparr>pending := ?w @ ?t\<rparr>)"
  obtain i ew1 where fr: "readAcks_frame peerT ?c = (Inr (Some i), ew1)"
    using offset8_frame by blast
  have r8: "replicate 8 (0 :: byte) = [0, 0, 0, 0, 0, 0, 0, 0]" by (simp add: numeral_eq_Suc)
  have u: "Uint32 ?w \<noteq> CONFIRM_ENTRY_MAGIC" "Uint32 (drop 4 ?w) \<noteq> CONFIRM_ENTRY_MAGIC"
    by (simp_all add: r8 CONFIRM_ENTRY_MAGIC_def)
  have hc: "pending (io ?c) = ?w @ ?t \<and> length ?w = ACK_SIZE \<and>
          Uint32 ?w \<noteq> CONFIRM_ENTRY_MAGIC \<and> Uint32 (drop 4 ?w) \<noteq> CONFIRM_ENTRY_MAGIC \<and>
          Uint32 (drop 8 ?w) = CONFIRM_ENTRY_MAGIC \<and>
          readAcks_frame peerT ?c = (Inr (Some i), ew1)"
    using fr u by (simp add: oneOut_def ACK_SIZE_def)
  from readAcks_resync[OF l, of "idle\<lparr>pending := ?w @ ?t\<rparr>" _ _ ?w ?t i ew1,
         THEN conjunct2, THEN conjunct2, THEN mp, OF hc]
  have "i = 1" by simp
  with fr have c1: "\<exists>ew1. readAcks_frame peerT ?c = (Inr (Some 1), ew1)" by blast
  from a1 a3 have a: "\<exists>ew'. readAcks peerT True ?a = Some (None, ew') \<and> recs (ecb ew') = []"
    by blast
  from l[of idle] a b1 c1 show ?thesis by (intro conjI) assumption+
qed

text \<open>
  The claim as stated fails. Entry 1 is outstanding (the writer after one Write on the
  writer NewEntryWriter builds) and the peer has sent three bytes 0xFF followed by the
  valid Confirm frame of entry 1. The 12-byte window shows the magic at none of the
  offsets 0, 4, 8 and is discarded with nine bytes of the frame in it: readAcks returns
  without error, Ack runs into the read deadline, and entry 1 is still outstanding.
\<close>

theorem readAcks_garbage_counterexample:
  "Write peerT entryA (fresh idle) = Some (None, oneOut idle) \<and>
   map_option fst
     (readAcks peerT False (oneOut (idle\<lparr>pending := [0xFF, 0xFF, 0xFF] @ confirmFrame 1\<rparr>)))
     = Some None \<and>
   map_option (recs \<circ> ecb \<circ> snd)
     (readAcks peerT False (oneOut (idle\<lparr>pending := [0xFF, 0xFF, 0xFF] @ confirmFrame 1\<rparr>)))
     = Some [(1, entryA)] \<and>
   map_option fst
     (Ack peerT (oneOut (idle\<lparr>pending := [0xFF, 0xFF, 0xFF] @ confirmFrame 1\<rparr>)))
     = Some (Some ErrTimeout) \<and>
   map_option (recs \<circ> ecb \<circ> snd)
     (Ack peerT (oneOut (idle\<lparr>pending := [0xFF, 0xFF, 0xFF] @ confirmFrame 1\<rparr>)))
     = Some [(1, entryA)]"
proof -
  obtain W where "readAcks peerT False
        (oneOut (idle\<lparr>pending := [0xFF, 0xFF, 0xFF] @ confirmFrame 1\<rparr>)) = Some (None, W)"
    "recs (ecb W) = [(1, entryA)]" using garbage_nonblocking by blast
  moreover obtain V where "Ack peerT
        (oneOut (idle\<lparr>pending := [0xFF, 0xFF, 0xFF] @ confirmFrame 1\<rparr>)) = Some (Some ErrTimeout, V)"
    "recs (ecb V) = [(1, entryA)]" using garbage_Ack by blast
  ultimately show ?thesis by (simp add: Write_fresh_idle)
qed

end
